theory Spec2Isabelle
  imports Main "HOL-Library.Char_ord" "HOL-Library.List_Lexorder" "HOL-Library.Product_Lexorder"
begin

section \<open>Text: characters, substrings, and the regular expressions of the scripts\<close>

text \<open>
  A Python string is modelled as \<^typ>\<open>string\<close>, each character standing for the Unicode code
  point of its number; code points above 255 are outside the type. The character classes are
  Python's \<^verbatim>\<open>\s\<close> (also what \<^verbatim>\<open>str.strip\<close> removes), \<^verbatim>\<open>\d\<close> and \<^verbatim>\<open>\w\<close> for \<^verbatim>\<open>str\<close>
  patterns on these code points: besides the ASCII ones, U+0085 and U+00A0 are whitespace, and
  the letters and numerals of the Latin-1 range are word characters.
\<close>

definition is_space :: "char \<Rightarrow> bool" where
  "is_space c = (let n = (of_char c :: nat) in
     (9 \<le> n \<and> n \<le> 13) \<or> (28 \<le> n \<and> n \<le> 32) \<or> n = 133 \<or> n = 160)"

definition is_digit :: "char \<Rightarrow> bool" where
  "is_digit c = (let n = (of_char c :: nat) in 48 \<le> n \<and> n \<le> 57)"

definition is_upper :: "char \<Rightarrow> bool" where
  "is_upper c = (let n = (of_char c :: nat) in 65 \<le> n \<and> n \<le> 90)"

definition is_lower :: "char \<Rightarrow> bool" where
  "is_lower c = (let n = (of_char c :: nat) in 97 \<le> n \<and> n \<le> 122)"

definition is_latin1_word :: "char \<Rightarrow> bool" where
  "is_latin1_word c = (let n = (of_char c :: nat) in
     n = 170 \<or> (178 \<le> n \<and> n \<le> 179) \<or> n = 181 \<or> (185 \<le> n \<and> n \<le> 186) \<or>
     (188 \<le> n \<and> n \<le> 190) \<or> (192 \<le> n \<and> n \<le> 214) \<or> (216 \<le> n \<and> n \<le> 246) \<or>
     248 \<le> n)"

definition is_word :: "char \<Rightarrow> bool" where
  "is_word c = (is_digit c \<or> is_upper c \<or> is_lower c \<or> c = CHR ''_'' \<or> is_latin1_word c)"

text \<open>\<^verbatim>\<open>s.startswith(w)\<close>.\<close>

fun startswith :: "string \<Rightarrow> string \<Rightarrow> bool" where
  "startswith s [] = True"
| "startswith [] (c # cs) = False"
| "startswith (x # xs) (c # cs) = (x = c \<and> startswith xs cs)"

text \<open>\<^verbatim>\<open>w in s\<close>.\<close>

fun contains :: "string \<Rightarrow> string \<Rightarrow> bool" where
  "contains w [] = (w = [])"
| "contains w (x # xs) = (startswith (x # xs) w \<or> contains w xs)"

text \<open>\<^verbatim>\<open>s.split(sep)[0]\<close> for a non-empty separator: the text before its first occurrence,
  the whole string when there is none.\<close>

fun split_head :: "string \<Rightarrow> string \<Rightarrow> string" where
  "split_head sep [] = []"
| "split_head sep (x # xs) = (if startswith (x # xs) sep then [] else x # split_head sep xs)"

text \<open>\<^verbatim>\<open>s.find(w)\<close>: the index of the first occurrence, or -1.\<close>

fun find_from :: "string \<Rightarrow> string \<Rightarrow> int \<Rightarrow> int" where
  "find_from w [] i = (if w = [] then i else -1)"
| "find_from w (x # xs) i = (if startswith (x # xs) w then i else find_from w xs (i + 1))"

definition find :: "string \<Rightarrow> string \<Rightarrow> int" where
  "find s w = find_from w s 0"

text \<open>\<^verbatim>\<open>s.strip()\<close>.\<close>

definition strip :: "string \<Rightarrow> string" where
  "strip s = rev (dropWhile is_space (rev (dropWhile is_space s)))"

text \<open>\<^verbatim>\<open>s.replace(old, new, 1)\<close>: the first occurrence of \<open>old\<close> is replaced; an empty
  \<open>old\<close> occurs at position 0.\<close>

fun replace1 :: "string \<Rightarrow> string \<Rightarrow> string \<Rightarrow> string" where
  "replace1 old new [] = (if old = [] then new else [])"
| "replace1 old new (x # xs) =
     (if startswith (x # xs) old then new @ drop (length old) (x # xs)
      else x # replace1 old new xs)"

subsection \<open>The regular-expression fragment\<close>

text \<open>
  Every pattern of the two scripts is a sequence of: a character class under a quantifier,
  a literal string, an alternation of literal strings, \<^verbatim>\<open>\b\<close>, or \<^verbatim>\<open>^\<close>.
\<close>

datatype cls =
    Space                 \<comment> \<open>\<^verbatim>\<open>\s\<close>\<close>
  | Word                  \<comment> \<open>\<^verbatim>\<open>\w\<close>\<close>
  | Digit                 \<comment> \<open>\<^verbatim>\<open>\d\<close>\<close>
  | Dot                   \<comment> \<open>\<^verbatim>\<open>.\<close>: anything but a newline\<close>
  | Upper                 \<comment> \<open>\<^verbatim>\<open>[A-Z]\<close>\<close>
  | AlphaU                \<comment> \<open>\<^verbatim>\<open>[a-zA-Z_]\<close>\<close>
  | Chr char              \<comment> \<open>one literal character\<close>
  | OneOf string          \<comment> \<open>\<^verbatim>\<open>[...]\<close>\<close>
  | NoneOf string         \<comment> \<open>\<^verbatim>\<open>[^...]\<close>\<close>

fun cls_match :: "cls \<Rightarrow> char \<Rightarrow> bool" where
  "cls_match Space c = is_space c"
| "cls_match Word c = is_word c"
| "cls_match Digit c = is_digit c"
| "cls_match Dot c = (c \<noteq> CHR 0x0A)"
| "cls_match Upper c = is_upper c"
| "cls_match AlphaU c = (is_upper c \<or> is_lower c \<or> c = CHR ''_'')"
| "cls_match (Chr d) c = (c = d)"
| "cls_match (OneOf ds) c = (c \<in> set ds)"
| "cls_match (NoneOf ds) c = (c \<notin> set ds)"

datatype quant =
    One        \<comment> \<open>exactly once\<close>
  | Opt        \<comment> \<open>\<^verbatim>\<open>?\<close>\<close>
  | Star       \<comment> \<open>\<^verbatim>\<open>*\<close>, greedy\<close>
  | Plus       \<comment> \<open>\<^verbatim>\<open>+\<close>, greedy\<close>
  | StarLazy   \<comment> \<open>\<^verbatim>\<open>*?\<close>\<close>
  | PlusLazy   \<comment> \<open>\<^verbatim>\<open>+?\<close>\<close>

datatype atom =
    Rep quant cls
  | Str string            \<comment> \<open>a literal string\<close>
  | Alt "string list"     \<comment> \<open>\<^verbatim>\<open>(a|b|...)\<close> of literal strings\<close>
  | WordB                 \<comment> \<open>\<^verbatim>\<open>\b\<close>\<close>
  | Bol                   \<comment> \<open>\<^verbatim>\<open>^\<close> (no MULTILINE flag: start of the string)\<close>

type_synonym regex = "atom list"

text \<open>
  A match attempt returns the text consumed by each atom, in order, and the text left after
  the match. The character before the current position (\<open>None\<close> at the start of the string)
  is carried for \<^verbatim>\<open>\b\<close> and \<^verbatim>\<open>^\<close>.
\<close>

type_synonym mres = "(string list \<times> string) option"

fun skip :: "mres \<Rightarrow> mres" where
  "skip None = None"
| "skip (Some (cs, r)) = Some ([] # cs, r)"

fun took :: "string \<Rightarrow> mres \<Rightarrow> mres" where
  "took w None = None"
| "took w (Some (cs, r)) = Some (w # cs, r)"

fun push :: "char \<Rightarrow> mres \<Rightarrow> mres" where
  "push x None = None"
| "push x (Some ([], r)) = Some ([[x]], r)"
| "push x (Some (c # cs, r)) = Some ((x # c) # cs, r)"

fun orelse :: "mres \<Rightarrow> mres \<Rightarrow> mres" where
  "orelse (Some y) b = Some y"
| "orelse None b = b"

definition lastc :: "char option \<Rightarrow> string \<Rightarrow> char option" where
  "lastc p w = (if w = [] then p else Some (last w))"

definition word_opt :: "char option \<Rightarrow> bool" where
  "word_opt p = (case p of None \<Rightarrow> False | Some c \<Rightarrow> is_word c)"

definition boundary :: "char option \<Rightarrow> string \<Rightarrow> bool" where
  "boundary p s = (word_opt p \<noteq> (case s of [] \<Rightarrow> False | x # _ \<Rightarrow> is_word x))"

text \<open>The backtracking matcher, alternatives tried in Python's order: a greedy quantifier
  takes as much as it can and gives back one character at a time, a lazy one takes as little
  as it can and grows, the alternatives of a group are tried left to right.\<close>

fun alts :: "regex \<Rightarrow> nat" where
  "alts (Alt ws # rs) = length ws"
| "alts rs = 0"

function (sequential) run :: "regex \<Rightarrow> char option \<Rightarrow> string \<Rightarrow> mres" where
  "run [] p s = Some ([], s)"
| "run (Str w # rs) p s =
     (if startswith s w then took w (run rs (lastc p w) (drop (length w) s)) else None)"
| "run (Alt [] # rs) p s = None"
| "run (Alt (w # ws) # rs) p s =
     orelse (if startswith s w then took w (run rs (lastc p w) (drop (length w) s)) else None)
            (run (Alt ws # rs) p s)"
| "run (WordB # rs) p s = (if boundary p s then skip (run rs p s) else None)"
| "run (Bol # rs) p s = (if p = None then skip (run rs p s) else None)"
| "run (Rep One c # rs) p [] = None"
| "run (Rep One c # rs) p (x # xs) =
     (if cls_match c x then took [x] (run rs (Some x) xs) else None)"
| "run (Rep Opt c # rs) p [] = skip (run rs p [])"
| "run (Rep Opt c # rs) p (x # xs) =
     (if cls_match c x then orelse (took [x] (run rs (Some x) xs)) (skip (run rs p (x # xs)))
      else skip (run rs p (x # xs)))"
| "run (Rep Star c # rs) p [] = skip (run rs p [])"
| "run (Rep Star c # rs) p (x # xs) =
     (if cls_match c x
      then orelse (push x (run (Rep Star c # rs) (Some x) xs)) (skip (run rs p (x # xs)))
      else skip (run rs p (x # xs)))"
| "run (Rep Plus c # rs) p [] = None"
| "run (Rep Plus c # rs) p (x # xs) =
     (if cls_match c x then push x (run (Rep Star c # rs) (Some x) xs) else None)"
| "run (Rep StarLazy c # rs) p [] = skip (run rs p [])"
| "run (Rep StarLazy c # rs) p (x # xs) =
     orelse (skip (run rs p (x # xs)))
            (if cls_match c x then push x (run (Rep StarLazy c # rs) (Some x) xs) else None)"
| "run (Rep PlusLazy c # rs) p [] = None"
| "run (Rep PlusLazy c # rs) p (x # xs) =
     (if cls_match c x then push x (run (Rep StarLazy c # rs) (Some x) xs) else None)"
  by pat_completeness auto

termination run
  by (relation "measures [\<lambda>(rs, p, s). length rs, \<lambda>(rs, p, s). alts rs, \<lambda>(rs, p, s). length s]")
     auto

text \<open>\<^verbatim>\<open>re.match(rx, s)\<close> anchors at position 0; \<^verbatim>\<open>re.search(rx, s)\<close> tries every
  position from the left.\<close>

definition re_match :: "regex \<Rightarrow> string \<Rightarrow> mres" where
  "re_match rx s = run rx None s"

fun search_from :: "regex \<Rightarrow> char option \<Rightarrow> string \<Rightarrow> bool" where
  "search_from rx p [] = (run rx p [] \<noteq> None)"
| "search_from rx p (x # xs) = (run rx p (x # xs) \<noteq> None \<or> search_from rx (Some x) xs)"

definition re_search :: "regex \<Rightarrow> string \<Rightarrow> bool" where
  "re_search rx s = search_from rx None s"

text \<open>\<^verbatim>\<open>re.sub(rx, repl, s)\<close> for a pattern with no empty match (both substituted patterns
  of the script consume at least one character): scanning from the left, a match is replaced
  and the scan resumes after it; otherwise the character is copied.\<close>

fun sub_from :: "regex \<Rightarrow> string \<Rightarrow> char option \<Rightarrow> string \<Rightarrow> string" where
  "sub_from rx repl p [] = []"
| "sub_from rx repl p (x # xs) =
     (case run rx p (x # xs) of
        None \<Rightarrow> x # sub_from rx repl (Some x) xs
      | Some (cs, r) \<Rightarrow>
          if length r < length (x # xs)
          then repl @ sub_from rx repl (lastc p (take (length (x # xs) - length r) (x # xs))) r
          else x # sub_from rx repl (Some x) xs)"

definition re_sub :: "regex \<Rightarrow> string \<Rightarrow> string \<Rightarrow> string" where
  "re_sub rx repl s = sub_from rx repl None s"

section \<open>The Transformation Engine (modernize_code.py)\<close>

text \<open>The reason tags stand for the script's fixed reason strings, which are not ASCII:
  \<open>NullToNullptr\<close> for "NULL -> nullptr (ES.47)", \<open>TypedefToUsing\<close> for
  "typedef -> using (T.43)", \<open>ZeroToNullptr\<close> for the pointer-initialisation
  "0 -> nullptr (ES.47)" and \<open>AddExplicit\<close> for the explicit-constructor reason "(C.46)".\<close>

datatype reason = NullToNullptr | TypedefToUsing | ZeroToNullptr | AddExplicit

record replacement =
  line_num :: nat
  old_text :: string
  new_text :: string
  reason :: reason

definition Replacement :: "nat \<Rightarrow> string \<Rightarrow> string \<Rightarrow> reason \<Rightarrow> replacement" where
  "Replacement i old new why = \<lparr>line_num = i, old_text = old, new_text = new, reason = why\<rparr>"

text \<open>\<^verbatim>\<open>for i, line in enumerate(lines, 1)\<close> with a body that appends one line to
  \<open>result\<close> and possibly entries to \<open>self.replacements\<close>.\<close>

fun for_lines ::
  "(nat \<Rightarrow> string \<Rightarrow> string \<times> replacement list) \<Rightarrow> nat \<Rightarrow> string list \<Rightarrow>
   replacement list \<Rightarrow> string list \<times> replacement list" where
  "for_lines body i [] log = ([], log)"
| "for_lines body i (line # rest) log =
     (case body i line of (new_line, entries) \<Rightarrow>
        (case for_lines body (Suc i) rest (log @ entries) of (result, log') \<Rightarrow>
           (new_line # result, log')))"

subsection \<open>Pass: NULL to nullptr\<close>

definition rx_NULL :: regex where
  "rx_NULL = [WordB, Str ''NULL'', WordB]"

definition null_body :: "nat \<Rightarrow> string \<Rightarrow> string \<times> replacement list" where
  "null_body i line =
     (if \<not> contains ''//'' line \<and> \<not> contains ''/*'' line then
        if re_search rx_NULL line then
          (let old_line = line; new_line = re_sub rx_NULL ''nullptr'' line
           in if old_line \<noteq> new_line
              then (new_line, [Replacement i old_line new_line NullToNullptr])
              else (new_line, []))
        else (line, [])
      else (line, []))"

definition replace_null_with_nullptr ::
  "string list \<Rightarrow> replacement list \<Rightarrow> string list \<times> replacement list" where
  "replace_null_with_nullptr lines log = for_lines null_body 1 lines log"

subsection \<open>Pass: typedef to using\<close>

definition rx_typedef :: regex where
  "rx_typedef = [Rep Star Space, Str ''typedef'', Rep Plus Space, Rep PlusLazy Dot,
                 Rep Plus Space, Rep Plus Word, Rep Star Space, Str '';'']"

text \<open>The groups of the pattern are the texts of its atoms 0 (indent), 3 (old type) and
  5 (new name).\<close>

definition typedef_body :: "nat \<Rightarrow> string \<Rightarrow> string \<times> replacement list" where
  "typedef_body i line =
     (case re_match rx_typedef line of
        Some (indent # _ # _ # old_type # _ # new_name # _, _) \<Rightarrow>
          (let old_line = line;
               new_line = indent @ ''using '' @ new_name @ '' = '' @ old_type @ '';'' @ [CHR 0x0A]
           in (new_line, [Replacement i old_line new_line TypedefToUsing]))
      | _ \<Rightarrow> (line, []))"

definition replace_typedef_with_using ::
  "string list \<Rightarrow> replacement list \<Rightarrow> string list \<times> replacement list" where
  "replace_typedef_with_using lines log = for_lines typedef_body 1 lines log"

subsection \<open>Pass: pointer assignment of 0 to nullptr\<close>

definition rx_ptr_zero :: regex where
  "rx_ptr_zero = [Str ''*'', Rep Star Space, Rep Plus Word, Rep Star Space, Str ''='',
                  Rep Star Space, Str ''0'', Rep Star Space, Str '';'']"

definition rx_eq_zero :: regex where
  "rx_eq_zero = [Str ''='', Rep Star Space, Str ''0'', Rep Star Space, Str '';'']"

definition zero_body :: "nat \<Rightarrow> string \<Rightarrow> string \<times> replacement list" where
  "zero_body i line =
     (if re_search rx_ptr_zero line then
        (let old_line = line; new_line = re_sub rx_eq_zero ''= nullptr;'' line
         in if old_line \<noteq> new_line
            then (new_line, [Replacement i old_line new_line ZeroToNullptr])
            else (new_line, []))
      else (line, []))"

definition replace_zero_nullptr ::
  "string list \<Rightarrow> replacement list \<Rightarrow> string list \<times> replacement list" where
  "replace_zero_nullptr lines log = for_lines zero_body 1 lines log"

subsection \<open>Pass: explicit on single-parameter constructors, with its scope tracking\<close>

datatype access = Private | Public | Protected

record scope =
  in_class :: bool
  access_level :: access

definition rx_type_open :: regex where
  "rx_type_open = [Rep Star Space, Alt [''class'', ''struct''], Rep Plus Space, Rep Plus Word]"

definition rx_label :: "string \<Rightarrow> regex" where
  "rx_label kw = [Rep Star Space, Str kw, Rep Star Space, Str '':'']"

definition rx_ctor :: regex where
  "rx_ctor = [Rep Star Space, Rep Plus Word, Rep Star Space, Str ''('', Rep Star Space,
              Rep Plus Word, Rep Star (NoneOf '',)''), Str '')'', Rep Star Space,
              Rep One (OneOf '':{;'')]"

definition rx_type_end :: regex where
  "rx_type_end = [Rep Star Space, Str ''}'', Rep Star Space, Str '';'']"

text \<open>The three stages of the loop body, in the order of the source: the tracking of the
  type opener and of the access labels, the rewrite, the tracking of the end of the type.\<close>

definition track_open :: "scope \<Rightarrow> string \<Rightarrow> scope" where
  "track_open st line =
     (if re_match rx_type_open line \<noteq> None
      then \<lparr>in_class = True,
            access_level = (if contains ''struct'' line then Public else Private)\<rparr>
      else st)"

definition track_label :: "scope \<Rightarrow> string \<Rightarrow> scope" where
  "track_label st line =
     (if re_match (rx_label ''public'') line \<noteq> None then st\<lparr>access_level := Public\<rparr>
      else if re_match (rx_label ''private'') line \<noteq> None then st\<lparr>access_level := Private\<rparr>
      else if re_match (rx_label ''protected'') line \<noteq> None then st\<lparr>access_level := Protected\<rparr>
      else st)"

definition track_end :: "scope \<Rightarrow> string \<Rightarrow> scope" where
  "track_end st line =
     (if in_class st \<and> re_match rx_type_end line \<noteq> None then st\<lparr>in_class := False\<rparr> else st)"

definition explicit_rewrite :: "scope \<Rightarrow> nat \<Rightarrow> string \<Rightarrow> string \<times> replacement list" where
  "explicit_rewrite st i line =
     (if in_class st \<and> access_level st = Public then
        (case re_match rx_ctor line of
           Some (indent # _, _) \<Rightarrow>
             if \<not> contains ''explicit'' line \<and> \<not> contains ''delete'' line then
               (let old_line = line;
                    new_line = replace1 indent (indent @ ''explicit '') line
                in (new_line, [Replacement i old_line new_line AddExplicit]))
             else (line, [])
         | _ \<Rightarrow> (line, []))
      else (line, []))"

fun explicit_loop ::
  "scope \<Rightarrow> nat \<Rightarrow> string list \<Rightarrow> replacement list \<Rightarrow> string list \<times> replacement list" where
  "explicit_loop st i [] log = ([], log)"
| "explicit_loop st i (line # rest) log =
     (let st1 = track_label (track_open st line) line in
      case explicit_rewrite st1 i line of (new_line, entries) \<Rightarrow>
        (case explicit_loop (track_end st1 line) (Suc i) rest (log @ entries) of
           (result, log') \<Rightarrow> (new_line # result, log')))"

definition add_explicit_to_constructors ::
  "string list \<Rightarrow> replacement list \<Rightarrow> string list \<times> replacement list" where
  "add_explicit_to_constructors lines log =
     explicit_loop \<lparr>in_class = False, access_level = Private\<rparr> 1 lines log"

subsection \<open>The pipeline\<close>

text \<open>The in-memory part of \<^verbatim>\<open>modernize_file\<close>: the replacement log is reset and the
  four passes run on the lines read, each on the lines the one before returned.\<close>

definition modernize_file :: "string list \<Rightarrow> string list \<times> replacement list" where
  "modernize_file original_lines =
     (case replace_null_with_nullptr original_lines [] of (lines1, log1) \<Rightarrow>
      case replace_typedef_with_using lines1 log1 of (lines2, log2) \<Rightarrow>
      case add_explicit_to_constructors lines2 log2 of (lines3, log3) \<Rightarrow>
      replace_zero_nullptr lines3 log3)"

section \<open>The Detection Engine (detect_violations.py)\<close>

datatype severity = CRITICAL | IMPORTANT | SUGGESTION

text \<open>Each check has one fixed message and one fixed suggestion, both non-ASCII strings;
  the tag names the pair.\<close>

datatype message =
    UseOfNew | UseOfDelete | UseOfNULL | PointerAssignedZero | CStyleCast | UseOfTypedef
  | MaybeConstMember | IndexLoop | ReturnsRawPointer | CStyleArray

record violation =
  vfile :: string        \<comment> \<open>the field \<^verbatim>\<open>file\<close>\<close>
  vline :: nat           \<comment> \<open>the field \<^verbatim>\<open>line\<close>\<close>
  column :: int
  severity :: severity
  rule :: string
  message :: message
  code_snippet :: string

definition Violation ::
  "string \<Rightarrow> nat \<Rightarrow> int \<Rightarrow> severity \<Rightarrow> string \<Rightarrow> message \<Rightarrow> string \<Rightarrow> violation" where
  "Violation f i col sev r m snip =
     \<lparr>vfile = f, vline = i, column = col, severity = sev, rule = r, message = m,
      code_snippet = snip\<rparr>"

text \<open>\<^verbatim>\<open>for i, line in enumerate(lines, 1)\<close> with a body that appends to
  \<open>self.violations\<close>; the body also sees the lines after the current one
  (\<^verbatim>\<open>lines[i]\<close> is the next line).\<close>

fun for_each :: "(nat \<Rightarrow> string \<Rightarrow> string list \<Rightarrow> violation list) \<Rightarrow> nat \<Rightarrow> string list \<Rightarrow> violation list" where
  "for_each body i [] = []"
| "for_each body i (l # rest) = body i l rest @ for_each body (Suc i) rest"

definition code_part :: "string \<Rightarrow> string" where
  "code_part l = (if contains ''//'' l then split_head ''//'' l else l)"

definition rx_new :: regex where
  "rx_new = [WordB, Str ''new'', Rep Plus Space, Rep Plus Word]"

definition rx_delete :: regex where
  "rx_delete = [WordB, Str ''delete'', Rep Plus Space]"

definition raw_new_delete_body :: "string \<Rightarrow> nat \<Rightarrow> string \<Rightarrow> string list \<Rightarrow> violation list" where
  "raw_new_delete_body filepath i l rest =
     (if re_search rx_new (code_part l) \<and> \<not> contains ''make_unique'' l \<and> \<not> contains ''make_shared'' l
      then [Violation filepath i (find l ''new'') CRITICAL ''R.11'' UseOfNew (strip l)] else [])
     @ (if re_search rx_delete (code_part l)
        then [Violation filepath i (find l ''delete'') CRITICAL ''R.11'' UseOfDelete (strip l)]
        else [])"

definition detect_raw_new_delete :: "string \<Rightarrow> string list \<Rightarrow> violation list" where
  "detect_raw_new_delete filepath lines = for_each (raw_new_delete_body filepath) 1 lines"

definition rx_ptr_zero_any :: regex where
  "rx_ptr_zero_any = [Str ''*'', Rep Star Space, Rep Plus Word, Rep Star Space, Str ''='',
                      Rep Star Space, Str ''0'', Rep Star Space, Rep One (OneOf '';,)'')]"

definition null_usage_body :: "string \<Rightarrow> nat \<Rightarrow> string \<Rightarrow> string list \<Rightarrow> violation list" where
  "null_usage_body filepath i l rest =
     (if re_search rx_NULL (code_part l)
      then [Violation filepath i (find l ''NULL'') IMPORTANT ''ES.47'' UseOfNULL (strip l)] else [])
     @ (if re_search rx_ptr_zero_any (code_part l)
        then [Violation filepath i 0 IMPORTANT ''ES.47'' PointerAssignedZero (strip l)] else [])"

definition detect_null_usage :: "string \<Rightarrow> string list \<Rightarrow> violation list" where
  "detect_null_usage filepath lines = for_each (null_usage_body filepath) 1 lines"

definition rx_cast :: regex where
  "rx_cast = [Str ''('', Rep One Upper, Rep Star Word, Rep Star Space, Rep Opt (Chr CHR ''*''),
              Rep Star Space, Str '')'', Rep Star Space, Rep One AlphaU]"

definition c_style_cast_body :: "string \<Rightarrow> nat \<Rightarrow> string \<Rightarrow> string list \<Rightarrow> violation list" where
  "c_style_cast_body filepath i l rest =
     (if re_search rx_cast (code_part l)
      then [Violation filepath i 0 CRITICAL ''ES.49'' CStyleCast (strip l)] else [])"

definition detect_c_style_cast :: "string \<Rightarrow> string list \<Rightarrow> violation list" where
  "detect_c_style_cast filepath lines = for_each (c_style_cast_body filepath) 1 lines"

definition rx_typedef_word :: regex where
  "rx_typedef_word = [WordB, Str ''typedef'', WordB]"

definition typedef_check_body :: "string \<Rightarrow> nat \<Rightarrow> string \<Rightarrow> string list \<Rightarrow> violation list" where
  "typedef_check_body filepath i l rest =
     (if re_search rx_typedef_word (code_part l)
      then [Violation filepath i (find l ''typedef'') SUGGESTION ''T.43'' UseOfTypedef (strip l)]
      else [])"

definition detect_typedef :: "string \<Rightarrow> string list \<Rightarrow> violation list" where
  "detect_typedef filepath lines = for_each (typedef_check_body filepath) 1 lines"

definition rx_member_fn :: regex where
  "rx_member_fn = [Bol, Rep Star Space,
                   Alt [''int'', ''bool'', ''void'', ''string'', ''double'', ''float''],
                   Rep Plus Space, Rep Plus Word, Rep Star Space, Str ''('',
                   Rep Star (NoneOf '')''), Str '')'', Rep Star Space, Str ''{'']"

text \<open>\<^verbatim>\<open>i < len(lines) and 'return' in lines[i]\<close>: there is a next line and it contains
  \<open>return\<close>.\<close>

definition missing_const_body :: "string \<Rightarrow> nat \<Rightarrow> string \<Rightarrow> string list \<Rightarrow> violation list" where
  "missing_const_body filepath i l rest =
     (if re_search rx_member_fn l then
        (case rest of
           next_line # _ \<Rightarrow>
             if contains ''return'' next_line \<and> \<not> contains ''const'' l
             then [Violation filepath i 0 IMPORTANT ''Con.2'' MaybeConstMember (strip l)] else []
         | [] \<Rightarrow> [])
      else [])"

definition detect_missing_const :: "string \<Rightarrow> string list \<Rightarrow> violation list" where
  "detect_missing_const filepath lines = for_each (missing_const_body filepath) 1 lines"

definition rx_index_loop :: regex where
  "rx_index_loop = [Str ''for'', Rep Star Space, Str ''('', Rep Star Space, Rep Plus Word,
                    Rep Plus Space, Rep Plus Word, Rep Star Space, Str ''='', Rep Star Space,
                    Str ''0'', Rep Star Space, Str '';'', Rep Star Dot, Str ''.size()'']"

definition manual_loops_body :: "string \<Rightarrow> nat \<Rightarrow> string \<Rightarrow> string list \<Rightarrow> violation list" where
  "manual_loops_body filepath i l rest =
     (if re_search rx_index_loop l
      then [Violation filepath i 0 SUGGESTION ''ES.71'' IndexLoop (strip l)] else [])"

definition detect_manual_loops :: "string \<Rightarrow> string list \<Rightarrow> violation list" where
  "detect_manual_loops filepath lines = for_each (manual_loops_body filepath) 1 lines"

definition rx_ptr_return :: regex where
  "rx_ptr_return = [Rep Plus Word, Rep Star Space, Str ''*'', Rep Plus Space, Rep Plus Word,
                    Rep Star Space, Str ''('', Rep Star (NoneOf '')''), Str '')'']"

definition raw_pointers_body :: "string \<Rightarrow> nat \<Rightarrow> string \<Rightarrow> string list \<Rightarrow> violation list" where
  "raw_pointers_body filepath i l rest =
     (if re_search rx_ptr_return l \<and> \<not> contains ''const'' l
      then [Violation filepath i 0 IMPORTANT ''I.11'' ReturnsRawPointer (strip l)] else [])"

definition detect_raw_pointers :: "string \<Rightarrow> string list \<Rightarrow> violation list" where
  "detect_raw_pointers filepath lines = for_each (raw_pointers_body filepath) 1 lines"

definition rx_c_array :: regex where
  "rx_c_array = [WordB, Rep Plus Word, Rep Plus Space, Rep Plus Word, Rep Star Space, Str ''['',
                 Rep Star Space, Rep Plus Digit, Rep Star Space, Str '']'']"

definition c_arrays_body :: "string \<Rightarrow> nat \<Rightarrow> string \<Rightarrow> string list \<Rightarrow> violation list" where
  "c_arrays_body filepath i l rest =
     (if re_search rx_c_array l \<and> \<not> contains ''char'' l
      then [Violation filepath i 0 SUGGESTION ''SL.con.1'' CStyleArray (strip l)] else [])"

definition detect_c_arrays :: "string \<Rightarrow> string list \<Rightarrow> violation list" where
  "detect_c_arrays filepath lines = for_each (c_arrays_body filepath) 1 lines"

text \<open>The eight checks of \<^verbatim>\<open>detect_file\<close>, on the lines read, in the order they are
  called.\<close>

definition detect_lines :: "string \<Rightarrow> string list \<Rightarrow> violation list" where
  "detect_lines filepath lines =
     detect_raw_new_delete filepath lines @ detect_null_usage filepath lines
     @ detect_c_style_cast filepath lines @ detect_typedef filepath lines
     @ detect_missing_const filepath lines @ detect_manual_loops filepath lines
     @ detect_raw_pointers filepath lines @ detect_c_arrays filepath lines"

subsection \<open>Files, directories and the command line\<close>

text \<open>What a path names: a regular file whose content can be read (its lines) or cannot,
  a directory (with the files its three globs find, without and with \<^verbatim>\<open>--recursive\<close>),
  or nothing.\<close>

datatype node = RegularFile "string list option" | Directory "string list" "string list" | Missing

type_synonym filesystem = "string \<Rightarrow> node"

datatype diagnostic = CannotRead string | InvalidTarget string

text \<open>\<^verbatim>\<open>open\<close> and \<^verbatim>\<open>readlines\<close> raise for everything but a readable regular file.\<close>

definition read_lines :: "filesystem \<Rightarrow> string \<Rightarrow> string list option" where
  "read_lines fs filepath = (case fs filepath of RegularFile (Some lines) \<Rightarrow> Some lines | _ \<Rightarrow> None)"

text \<open>\<^verbatim>\<open>detect_file\<close>: the violations returned and what is printed to stderr.\<close>

definition detect_file :: "filesystem \<Rightarrow> string \<Rightarrow> violation list \<times> diagnostic list" where
  "detect_file fs filepath =
     (case read_lines fs filepath of
        None \<Rightarrow> ([], [CannotRead filepath])
      | Some lines \<Rightarrow> (detect_lines filepath lines, []))"

fun scan_files :: "filesystem \<Rightarrow> string list \<Rightarrow> violation list \<times> diagnostic list" where
  "scan_files fs [] = ([], [])"
| "scan_files fs (filepath # rest) =
     (case detect_file fs filepath of (violations, errs) \<Rightarrow>
        (case scan_files fs rest of (all_violations, errs') \<Rightarrow>
           (violations @ all_violations, errs @ errs')))"

definition scan_directory :: "filesystem \<Rightarrow> string \<Rightarrow> bool \<Rightarrow> violation list \<times> diagnostic list" where
  "scan_directory fs directory recursive =
     (case fs directory of
        Directory flat deep \<Rightarrow> scan_files fs (if recursive then deep else flat)
      | _ \<Rightarrow> ([], []))"

definition severity_rank :: "severity \<Rightarrow> nat" where
  "severity_rank sev = (if sev = CRITICAL then 0 else if sev = IMPORTANT then 1 else 2)"

definition sort_key_of :: "violation \<Rightarrow> nat \<times> string \<times> nat" where
  "sort_key_of v = (severity_rank (severity v), vfile v, vline v)"

record outcome =
  exit_status :: nat
  stderr :: "diagnostic list"
  reported :: "violation list"

text \<open>\<^verbatim>\<open>main\<close>, on the arguments after the script name: the exit status, what went to
  stderr, and the violations in the order they are printed. Without an argument the usage
  text goes to stdout, so nothing is recorded for stderr.\<close>

definition main :: "filesystem \<Rightarrow> string list \<Rightarrow> outcome" where
  "main fs args =
     (case args of
        [] \<Rightarrow> \<lparr>exit_status = 1, stderr = [], reported = []\<rparr>
      | target # _ \<Rightarrow>
          (let recursive = (''--recursive'' \<in> set args \<or> ''-r'' \<in> set args) in
           case fs target of
             RegularFile content \<Rightarrow>
               (case detect_file fs target of (violations, errs) \<Rightarrow>
                  \<lparr>exit_status = 0, stderr = errs,
                   reported = sort_key sort_key_of violations\<rparr>)
           | Directory flat deep \<Rightarrow>
               (case scan_directory fs target recursive of (violations, errs) \<Rightarrow>
                  \<lparr>exit_status = 0, stderr = errs,
                   reported = sort_key sort_key_of violations\<rparr>)
           | Missing \<Rightarrow> \<lparr>exit_status = 1, stderr = [InvalidTarget target], reported = []\<rparr>))"

subsection \<open>The report generator (generate_report.py)\<close>

text \<open>\<^verbatim>\<open>main\<close> of the report generator, on its directory argument and the
  \<^verbatim>\<open>--recursive\<close> flag: \<open>reported\<close> is the list it hands to \<^verbatim>\<open>ReportGenerator\<close>, which
  keeps it as \<^verbatim>\<open>self.violations\<close> and renders it in the order of the list.\<close>

definition generate_report_main :: "filesystem \<Rightarrow> string \<Rightarrow> bool \<Rightarrow> outcome" where
  "generate_report_main fs directory recursive =
     (case fs directory of
        Directory flat deep \<Rightarrow>
          (case scan_directory fs directory recursive of (violations, errs) \<Rightarrow>
             \<lparr>exit_status = 0, stderr = errs, reported = violations\<rparr>)
      | _ \<Rightarrow> \<lparr>exit_status = 1, stderr = [InvalidTarget directory], reported = []\<rparr>)"

section \<open>Sample inputs\<close>

definition foo_lines :: "string list" where
  "foo_lines = [''class Foo {\<newline>'', ''public:\<newline>'', ''    Foo(int x) { }\<newline>'', ''};\<newline>'']"

definition sample_fs :: filesystem where
  "sample_fs p =
     (if p = ''src'' then Directory [''b.cpp'', ''locked.cpp'', ''a.cpp''] [''b.cpp'', ''locked.cpp'', ''a.cpp'']
      else if p = ''b.cpp'' then RegularFile (Some [''typedef int T;\<newline>'', ''int* p = new int;\<newline>''])
      else if p = ''a.cpp'' then RegularFile (Some [''x = NULL;\<newline>''])
      else if p = ''locked.cpp'' then RegularFile None
      else Missing)"

definition report_fs :: filesystem where
  "report_fs p =
     (if p = ''src'' then Directory [''src/a.cpp'', ''src/b.cpp''] [''src/a.cpp'', ''src/b.cpp'']
      else if p = ''src/a.cpp'' then RegularFile (Some [''x = NULL;\<newline>''])
      else if p = ''src/b.cpp''
        then RegularFile (Some [''typedef int T;\<newline>'', ''int* p = new int;\<newline>''])
      else Missing)"

definition ptr_lines :: "string list" where
  "ptr_lines = [''struct S {\<newline>'', ''  S(int x);\<newline>'', ''  int *p = 0;\<newline>'', ''};\<newline>'']"

definition comment_lines :: "string list" where
  "comment_lines = [''// int arr[10];\<newline>'', ''// for (int i = 0; i < v.size(); ++i)\<newline>'',
                    ''// int* make(int n);\<newline>'']"

definition ctor_lines :: "string list" where
  "ctor_lines = [''class Constructor {\<newline>'', ''    Constructor(int x) { }\<newline>'', ''};\<newline>'']"

section \<open>Orders on the replacement log\<close>

text \<open>The position of each pass in \<^verbatim>\<open>modernize_file\<close>, by the reason it logs: the calls
  are \<^verbatim>\<open>_replace_null_with_nullptr\<close>, \<^verbatim>\<open>_replace_typedef_with_using\<close>,
  \<^verbatim>\<open>_add_explicit_to_constructors\<close>, \<^verbatim>\<open>_replace_zero_nullptr\<close>.\<close>

definition pass_number :: "reason \<Rightarrow> nat" where
  "pass_number why =
     (case why of NullToNullptr \<Rightarrow> 1 | TypedefToUsing \<Rightarrow> 2 | AddExplicit \<Rightarrow> 3 | ZeroToNullptr \<Rightarrow> 4)"

definition log_key :: "replacement \<Rightarrow> nat \<times> nat" where
  "log_key r = (pass_number (reason r), line_num r)"

text \<open>The numbering of the passes in the specification's list, for comparison: NULL,
  typedef, pointer-initialisation 0, explicit.\<close>

definition spec_pass_number :: "reason \<Rightarrow> nat" where
  "spec_pass_number why =
     (case why of NullToNullptr \<Rightarrow> 1 | TypedefToUsing \<Rightarrow> 2 | ZeroToNullptr \<Rightarrow> 3 | AddExplicit \<Rightarrow> 4)"

definition spec_log_key :: "replacement \<Rightarrow> nat \<times> nat" where
  "spec_log_key r = (spec_pass_number (reason r), line_num r)"

text \<open>Auxiliary predicates on the entries a pass logs: all for line \<open>i\<close>; or in the order of
  their lines, none before line \<open>i\<close>.\<close>

definition tagged :: "reason \<Rightarrow> nat \<Rightarrow> replacement list \<Rightarrow> bool" where
  "tagged why i es = (\<forall>r\<in>set es. reason r = why \<and> line_num r = i)"

definition from_line :: "reason \<Rightarrow> nat \<Rightarrow> replacement list \<Rightarrow> bool" where
  "from_line why i es =
     (sorted (map line_num es) \<and> (\<forall>r\<in>set es. reason r = why \<and> i \<le> line_num r))"

section \<open>The scope state line by line, and the shape of a rewritten line\<close>

text \<open>One iteration of the loop of \<^verbatim>\<open>_add_explicit_to_constructors\<close> takes the scope through
  the opener, the labels and the end of a type; \<open>scope_at ls k\<close> is the scope under which line
  \<open>k\<close> (counted from 0) is tested for a rewrite: the loop run over the lines before it, then
  the opener and label tracking of the line itself.\<close>

definition track_line :: "scope \<Rightarrow> string \<Rightarrow> scope" where
  "track_line st l = track_end (track_label (track_open st l) l) l"

definition scope_from :: "scope \<Rightarrow> string list \<Rightarrow> nat \<Rightarrow> scope" where
  "scope_from st ls k =
     (let before = foldl track_line st (take k ls)
      in track_label (track_open before (ls ! k)) (ls ! k))"

definition scope_at :: "string list \<Rightarrow> nat \<Rightarrow> scope" where
  "scope_at ls k = scope_from \<lparr>in_class = False, access_level = Private\<rparr> ls k"

text \<open>The test guarding the rewrite, and the line the rewrite produces.\<close>

definition fires :: "scope \<Rightarrow> string \<Rightarrow> bool" where
  "fires st l \<longleftrightarrow> in_class st \<and> access_level st = Public \<and> re_match rx_ctor l \<noteq> None
      \<and> \<not> contains ''explicit'' l \<and> \<not> contains ''delete'' l"

definition with_explicit :: "string \<Rightarrow> string" where
  "with_explicit l = takeWhile is_space l @ ''explicit '' @ dropWhile is_space l"

text \<open>What a match of the constructor pattern says about the start of the line.\<close>

definition ctor_shape :: "string \<Rightarrow> bool" where
  "ctor_shape l = (let s1 = dropWhile is_space l in
      s1 \<noteq> [] \<and> is_word (hd s1) \<and> startswith (dropWhile is_space (dropWhile is_word s1)) ''('')"

section \<open>Occurrences of the assigned zero\<close>

text \<open>A match of \<^verbatim>\<open>=\s*0\s*;\<close> in closed form: \<open>zero_at s\<close> is the text after a match that
  starts at the head of \<open>s\<close>, \<open>has_zero s\<close> says that a match starts somewhere in \<open>s\<close>, and
  \<open>zsub\<close> names the substitution the pass applies.\<close>

definition zero_tail :: "string \<Rightarrow> string option" where
  "zero_tail t =
     (case dropWhile is_space t of
        [] \<Rightarrow> None
      | c # u \<Rightarrow>
          if c = CHR ''0'' then
            (case dropWhile is_space u of
               [] \<Rightarrow> None
             | d # r \<Rightarrow> if d = CHR '';'' then Some r else None)
          else None)"

definition zero_at :: "string \<Rightarrow> string option" where
  "zero_at s = (case s of [] \<Rightarrow> None | c # t \<Rightarrow> if c = CHR ''='' then zero_tail t else None)"

fun has_zero :: "string \<Rightarrow> bool" where
  "has_zero [] = False"
| "has_zero (c # t) = (zero_at (c # t) \<noteq> None \<or> has_zero t)"

definition zsub :: "string \<Rightarrow> string" where
  "zsub s = re_sub rx_eq_zero ''= nullptr;'' s"

definition zero_lines :: "string list" where
  "zero_lines = [''  *p = 0; n = 0;\<newline>'']"

section \<open>Occurrences of the whole word NULL\<close>

text \<open>A match of \<^verbatim>\<open>\bNULL\b\<close> in closed form: \<open>null_at w s\<close> says that a match starts at the
  head of \<open>s\<close>, where \<open>w\<close> tells whether the character before is a word character;
  \<open>has_null w s\<close> says that a match starts somewhere in \<open>s\<close>; \<open>nsub\<close> names the substitution
  the pass applies.\<close>

definition null_at :: "bool \<Rightarrow> string \<Rightarrow> bool" where
  "null_at w s \<longleftrightarrow>
     \<not> w \<and> startswith s ''NULL'' \<and> \<not> (case drop 4 s of [] \<Rightarrow> False | x # _ \<Rightarrow> is_word x)"

fun has_null :: "bool \<Rightarrow> string \<Rightarrow> bool" where
  "has_null w [] = False"
| "has_null w (c # t) = (null_at w (c # t) \<or> has_null (is_word c) t)"

definition nsub :: "char option \<Rightarrow> string \<Rightarrow> string" where
  "nsub p s = sub_from rx_NULL ''nullptr'' p s"

text \<open>Sample inputs for the passes run twice and for the NULL pass.\<close>

definition idem_lines :: "string list" where
  "idem_lines = [''typedef decltype(NULL) null_t; // alias\<newline>'']"

definition null_lines :: "string list" where
  "null_lines = [''p = NULL;\<newline>'']"

definition null_comment_lines :: "string list" where
  "null_comment_lines = [''x = NULL; // c\<newline>'']"

definition idem_lines2 :: "string list" where
  "idem_lines2 = [''typedef *p=0;\<newline>'']"

section \<open>The loops, line by line\<close>

lemma for_lines_Cons_fst:
  "fst (for_lines body i (l # ls) log) =
     fst (body i l) # fst (for_lines body (Suc i) ls (log @ snd (body i l)))"
  by (simp split: prod.splits)

lemma for_lines_Cons_snd:
  "snd (for_lines body i (l # ls) log) = snd (for_lines body (Suc i) ls (log @ snd (body i l)))"
  by (simp split: prod.splits)

lemma for_lines_fst:
  "fst (for_lines body i ls log) = map (\<lambda>(k, l). fst (body k l)) (enumerate i ls)"
  by (induction ls arbitrary: i log) (simp_all add: for_lines_Cons_fst del: for_lines.simps(2))

lemma for_lines_snd:
  "snd (for_lines body i ls log) = log @ concat (map (\<lambda>(k, l). snd (body k l)) (enumerate i ls))"
  by (induction ls arbitrary: i log) (simp_all add: for_lines_Cons_snd del: for_lines.simps(2))

lemma for_lines_length: "length (fst (for_lines body i ls log)) = length ls"
  by (simp add: for_lines_fst)

lemma for_lines_nth:
  "k < length ls \<Longrightarrow> fst (for_lines body i ls log) ! k = fst (body (i + k) (ls ! k))"
  by (simp add: for_lines_fst nth_enumerate_eq)

lemma explicit_loop_Cons_fst:
  "fst (explicit_loop st i (l # ls) log) =
     fst (explicit_rewrite (track_label (track_open st l) l) i l)
     # fst (explicit_loop (track_end (track_label (track_open st l) l) l) (Suc i) ls
         (log @ snd (explicit_rewrite (track_label (track_open st l) l) i l)))"
  by (simp add: Let_def split: prod.splits)

lemma explicit_loop_Cons_snd:
  "snd (explicit_loop st i (l # ls) log) =
     snd (explicit_loop (track_end (track_label (track_open st l) l) l) (Suc i) ls
         (log @ snd (explicit_rewrite (track_label (track_open st l) l) i l)))"
  by (simp add: Let_def split: prod.splits)

lemma explicit_loop_length: "length (fst (explicit_loop st i ls log)) = length ls"
  by (induction ls arbitrary: st i log)
     (simp_all add: explicit_loop_Cons_fst del: explicit_loop.simps(2))

lemma explicit_loop_nth:
  "k < length ls \<Longrightarrow>
   \<exists>st'. fst (explicit_loop st i ls log) ! k = fst (explicit_rewrite st' (i + k) (ls ! k))"
proof (induction ls arbitrary: st i log k)
  case Nil
  then show ?case by simp
next
  case (Cons l ls)
  show ?case
  proof (cases k)
    case 0
    then show ?thesis by (auto simp: explicit_loop_Cons_fst simp del: explicit_loop.simps(2))
  next
    case (Suc k')
    with Cons.prems have "k' < length ls" by simp
    from Cons.IH[OF this, of _ "Suc i"] Suc
    show ?thesis by (simp add: explicit_loop_Cons_fst del: explicit_loop.simps(2))
  qed
qed

lemma modernize_file_unfold:
  "modernize_file ls =
     (let r1 = replace_null_with_nullptr ls [];
          r2 = replace_typedef_with_using (fst r1) (snd r1);
          r3 = add_explicit_to_constructors (fst r2) (snd r2)
      in replace_zero_nullptr (fst r3) (snd r3))"
  by (simp add: modernize_file_def Let_def split: prod.splits)

lemma modernize_file_length: "length (fst (modernize_file ls)) = length ls"
  by (simp add: modernize_file_unfold Let_def replace_null_with_nullptr_def
      replace_typedef_with_using_def replace_zero_nullptr_def add_explicit_to_constructors_def
      for_lines_length explicit_loop_length)

section \<open>Line preservation\<close>

text \<open>
  C5. Every one of the four rewrite passes, and so the whole pipeline, returns as many lines
  as it was given, and the line at each line number of the output is the loop body's result
  for the line at the same number of the input: a pass replaces the text of a line and
  never splits, merges, inserts or deletes lines.
\<close>

theorem passes_preserve_lines:
  "length (fst (replace_null_with_nullptr ls log)) = length ls \<and>
   length (fst (replace_typedef_with_using ls log)) = length ls \<and>
   length (fst (add_explicit_to_constructors ls log)) = length ls \<and>
   length (fst (replace_zero_nullptr ls log)) = length ls \<and>
   length (fst (modernize_file ls)) = length ls \<and>
   (\<forall>k<length ls.
      fst (replace_null_with_nullptr ls log) ! k = fst (null_body (Suc k) (ls ! k)) \<and>
      fst (replace_typedef_with_using ls log) ! k = fst (typedef_body (Suc k) (ls ! k)) \<and>
      fst (replace_zero_nullptr ls log) ! k = fst (zero_body (Suc k) (ls ! k)) \<and>
      (\<exists>st. fst (add_explicit_to_constructors ls log) ! k
              = fst (explicit_rewrite st (Suc k) (ls ! k))))"
proof -
  have "\<exists>st. fst (add_explicit_to_constructors ls log) ! k
              = fst (explicit_rewrite st (Suc k) (ls ! k))" if "k < length ls" for k
    using explicit_loop_nth[OF that, of _ 1 log] by (simp add: add_explicit_to_constructors_def)
  then show ?thesis
    by (simp add: replace_null_with_nullptr_def replace_typedef_with_using_def
        replace_zero_nullptr_def add_explicit_to_constructors_def for_lines_length
        for_lines_nth explicit_loop_length modernize_file_length)
qed

theorem passes_preserve_lines_witness:
  "(2::nat) < length foo_lines \<and>
   length (fst (modernize_file foo_lines)) = 4 \<and>
   length (fst (add_explicit_to_constructors foo_lines [])) = 4 \<and>
   fst (replace_null_with_nullptr foo_lines []) ! 2 = fst (null_body 3 (foo_lines ! 2))"
proof -
  have len: "length foo_lines = 4" by (simp add: foo_lines_def)
  have two: "(2::nat) < length foo_lines" by (simp add: len)
  from passes_preserve_lines[of foo_lines "[]"] two
  have "fst (replace_null_with_nullptr foo_lines []) ! 2 = fst (null_body (Suc 2) (foo_lines ! 2))"
    by blast
  with passes_preserve_lines[of foo_lines "[]"] len two show ?thesis
    by (simp add: numeral_3_eq_3)
qed

section \<open>The order of the report\<close>

lemma reported_main:
  "reported (main fs args) = [] \<or> (\<exists>vs. reported (main fs args) = sort_key sort_key_of vs)"
  by (auto simp: main_def Let_def split: list.splits node.splits prod.splits)

lemma sort_key_of_le_iff:
  "sort_key_of v \<le> sort_key_of w \<longleftrightarrow>
     severity_rank (severity v) < severity_rank (severity w)
     \<or> severity_rank (severity v) = severity_rank (severity w) \<and>
        (vfile v < vfile w \<or> vfile v = vfile w \<and> vline v \<le> vline w)"
  by (auto simp: sort_key_of_def less_eq_prod_def)

lemma severity_rank_less:
  "severity_rank a < severity_rank b \<longleftrightarrow>
     (a = CRITICAL \<and> b \<noteq> CRITICAL) \<or> (a = IMPORTANT \<and> b = SUGGESTION)"
  by (cases a; cases b) (simp_all add: severity_rank_def)

lemma severity_rank_eq: "severity_rank a = severity_rank b \<longleftrightarrow> a = b"
  by (cases a; cases b) (simp_all add: severity_rank_def)

text \<open>
  The violation list that \<^verbatim>\<open>main\<close> of the detection script prints, for a single file or
  batched over the files of a directory, is sorted by severity rank first (Critical, then
  Important, then Suggestion), by file identifier second (Python's string order), by line
  number third.
\<close>

lemma main_reported_sorted:
  "sorted (map sort_key_of (reported (main fs args))) \<and>
   (\<forall>i j. i < j \<and> j < length (reported (main fs args)) \<longrightarrow>
      (let v = reported (main fs args) ! i; w = reported (main fs args) ! j in
         (severity v = CRITICAL \<and> severity w \<noteq> CRITICAL)
         \<or> (severity v = IMPORTANT \<and> severity w = SUGGESTION)
         \<or> (severity v = severity w \<and>
             (vfile v < vfile w \<or> vfile v = vfile w \<and> vline v \<le> vline w))))"
proof -
  have srt: "sorted (map sort_key_of (reported (main fs args)))"
    using reported_main[of fs args] by (auto simp: sorted_sort_key)
  have "sort_key_of (reported (main fs args) ! i) \<le> sort_key_of (reported (main fs args) ! j)"
    if "i < j" "j < length (reported (main fs args))" for i j
    using sorted_nth_mono[OF srt, of i j] that by simp
  then show ?thesis
    using srt by (simp add: Let_def sort_key_of_le_iff severity_rank_less severity_rank_eq)
qed

text \<open>
  C8 (at an input where the code departs from it). For a directory of two files the report
  generator hands \<^verbatim>\<open>ReportGenerator\<close> the violations in the order of the scan, an Important
  one before a Critical one: the list the Reporter renders is not sorted by (severity rank,
  file, line), while the list the detection script's own \<^verbatim>\<open>main\<close> prints for the same
  directory is.
\<close>

theorem report_generator_list_unsorted:
  "map sort_key_of (reported (generate_report_main report_fs ''src'' False))
     = [(1, ''src/a.cpp'', 1), (0, ''src/b.cpp'', 2), (2, ''src/b.cpp'', 1)] \<and>
   \<not> sorted (map sort_key_of (reported (generate_report_main report_fs ''src'' False))) \<and>
   map sort_key_of (reported (main report_fs [''src'']))
     = [(0, ''src/b.cpp'', 2), (1, ''src/a.cpp'', 1), (2, ''src/b.cpp'', 1)]"
proof -
  have a: "map sort_key_of (reported (generate_report_main report_fs ''src'' False))
     = [(1, ''src/a.cpp'', 1), (0, ''src/b.cpp'', 2), (2, ''src/b.cpp'', 1)]"
    by code_simp
  have b: "map sort_key_of (reported (main report_fs [''src'']))
     = [(0, ''src/b.cpp'', 2), (1, ''src/a.cpp'', 1), (2, ''src/b.cpp'', 1)]"
    by code_simp
  show ?thesis unfolding a b by (simp add: less_eq_prod_def)
qed

section \<open>Unreadable files and invalid targets\<close>

lemma scan_files_fst: "fst (scan_files fs ps) = concat (map (\<lambda>p. fst (detect_file fs p)) ps)"
  by (induction ps) (auto split: prod.splits)

lemma scan_files_snd: "snd (scan_files fs ps) = concat (map (\<lambda>p. snd (detect_file fs p)) ps)"
  by (induction ps) (auto split: prod.splits)

text \<open>
  C9. A file that cannot be read makes \<^verbatim>\<open>detect_file\<close> print one diagnostic to stderr
  and return the empty violation list, with no error raised, so that the scan of a batch goes
  on to the files after it and returns the violations of all the others; a target that is
  neither a file nor a directory makes \<^verbatim>\<open>main\<close> exit with status 1.
\<close>

theorem unreadable_file_skipped_invalid_target_fatal:
  "(read_lines fs p = None \<longrightarrow>
      detect_file fs p = ([], [CannotRead p]) \<and>
      fst (scan_files fs (before @ p # after))
        = fst (scan_files fs before) @ fst (scan_files fs after) \<and>
      snd (scan_files fs (before @ p # after))
        = snd (scan_files fs before) @ CannotRead p # snd (scan_files fs after)) \<and>
   (fs target = Missing \<longrightarrow>
      exit_status (main fs (target # opts)) = 1 \<and>
      stderr (main fs (target # opts)) = [InvalidTarget target] \<and>
      reported (main fs (target # opts)) = [])"
  by (auto simp: scan_files_fst scan_files_snd detect_file_def main_def Let_def)

theorem unreadable_file_skipped_invalid_target_fatal_witness:
  "read_lines sample_fs ''locked.cpp'' = None \<and>
   detect_file sample_fs ''locked.cpp'' = ([], [CannotRead ''locked.cpp'']) \<and>
   fst (scan_files sample_fs ([''b.cpp''] @ ''locked.cpp'' # [''a.cpp'']))
     = fst (scan_files sample_fs [''b.cpp'']) @ fst (scan_files sample_fs [''a.cpp'']) \<and>
   sample_fs ''nowhere'' = Missing \<and>
   exit_status (main sample_fs (''nowhere'' # [''-r''])) = 1"
proof -
  have a: "read_lines sample_fs ''locked.cpp'' = None"
    by (simp add: read_lines_def sample_fs_def)
  have b: "sample_fs ''nowhere'' = Missing"
    by (simp add: sample_fs_def)
  from unreadable_file_skipped_invalid_target_fatal
         [of sample_fs "''locked.cpp''" "[''b.cpp'']" "[''a.cpp'']" "''nowhere''" "[''-r'']"] a b
  show ?thesis by blast
qed

section \<open>The order of the passes and of the replacement log\<close>

lemma for_lines_log_fst: "fst (for_lines body i ls log) = fst (for_lines body i ls [])"
  by (simp add: for_lines_fst)
lemma for_lines_log_snd: "snd (for_lines body i ls log) = log @ snd (for_lines body i ls [])"
  by (simp add: for_lines_snd)

lemma explicit_loop_log:
  "fst (explicit_loop st i ls log) = fst (explicit_loop st i ls []) \<and>
   snd (explicit_loop st i ls log) = log @ snd (explicit_loop st i ls [])"
proof (induction ls arbitrary: st i log)
  case Nil
  show ?case by simp
next
  case (Cons l ls)
  let ?st1 = "track_label (track_open st l) l"
  let ?e = "snd (explicit_rewrite ?st1 i l)"
  from Cons[of "track_end ?st1 l" "Suc i" "log @ ?e"] Cons[of "track_end ?st1 l" "Suc i" "?e"]
  show ?case
    by (simp add: explicit_loop_Cons_fst explicit_loop_Cons_snd del: explicit_loop.simps(2))
qed

lemma from_line_Nil: "from_line why i []"
  by (simp add: from_line_def)

lemma sorted_all_eq: "\<forall>x\<in>set xs. x = (i::nat) \<Longrightarrow> sorted xs"
  by (induction xs) auto

lemma from_line_append:
  assumes "tagged why i es" and "from_line why (Suc i) fs"
  shows "from_line why i (es @ fs)"
proof -
  have "sorted (map line_num es)"
    using assms(1) by (intro sorted_all_eq[of _ i]) (auto simp: tagged_def)
  with assms show ?thesis
    by (fastforce simp: from_line_def tagged_def sorted_append)
qed

lemma from_line_for_lines:
  assumes "\<And>k l. tagged why k (snd (body k l))"
  shows "from_line why i (snd (for_lines body i ls []))"
proof -
  have "from_line why i (concat (map (\<lambda>(k, l). snd (body k l)) (enumerate i ls)))"
    by (induction ls arbitrary: i) (simp_all add: from_line_Nil from_line_append assms)
  then show ?thesis by (simp add: for_lines_snd)
qed

lemma tagged_null_body: "tagged NullToNullptr k (snd (null_body k l))"
  by (simp add: tagged_def null_body_def Let_def Replacement_def)

lemma tagged_typedef_body: "tagged TypedefToUsing k (snd (typedef_body k l))"
  by (simp add: tagged_def typedef_body_def Let_def Replacement_def split: option.splits list.splits prod.splits)

lemma tagged_zero_body: "tagged ZeroToNullptr k (snd (zero_body k l))"
  by (simp add: tagged_def zero_body_def Let_def Replacement_def)

lemma tagged_explicit_rewrite: "tagged AddExplicit k (snd (explicit_rewrite st k l))"
  by (simp add: tagged_def explicit_rewrite_def Let_def Replacement_def split: option.splits list.splits prod.splits)

lemma from_line_explicit_loop: "from_line AddExplicit i (snd (explicit_loop st i ls []))"
proof (induction ls arbitrary: st i)
  case Nil
  show ?case by (simp add: from_line_Nil)
next
  case (Cons l ls)
  let ?st1 = "track_label (track_open st l) l"
  have "snd (explicit_loop st i (l # ls) []) =
          snd (explicit_rewrite ?st1 i l) @ snd (explicit_loop (track_end ?st1 l) (Suc i) ls [])"
    using explicit_loop_log[of "track_end ?st1 l" "Suc i" ls "snd (explicit_rewrite ?st1 i l)"]
    by (simp add: explicit_loop_Cons_snd del: explicit_loop.simps(2))
  then show ?case
    by (simp add: from_line_append tagged_explicit_rewrite Cons)
qed

lemma from_line_log_key:
  assumes "from_line why i es"
  shows "sorted (map log_key es)" and "\<forall>r\<in>set es. fst (log_key r) = pass_number why"
proof -
  have eq: "map log_key es = map (Pair (pass_number why)) (map line_num es)"
    using assms by (auto simp: from_line_def log_key_def)
  have mono: "sorted (map (Pair a) xs)" if "sorted xs" for a :: nat and xs :: "nat list"
    using that by (induction xs) (auto simp: less_eq_prod_def)
  show "sorted (map log_key es)"
    unfolding eq using assms by (intro mono) (simp add: from_line_def)
  show "\<forall>r\<in>set es. fst (log_key r) = pass_number why"
    using assms by (simp add: from_line_def log_key_def)
qed

lemma modernize_file_log:
  "snd (modernize_file ls) =
     (let l1 = fst (replace_null_with_nullptr ls []);
          l2 = fst (replace_typedef_with_using l1 []);
          l3 = fst (add_explicit_to_constructors l2 [])
      in snd (replace_null_with_nullptr ls []) @ snd (replace_typedef_with_using l1 [])
         @ snd (add_explicit_to_constructors l2 []) @ snd (replace_zero_nullptr l3 []))"
  and modernize_file_lines:
  "fst (modernize_file ls) =
     fst (replace_zero_nullptr (fst (add_explicit_to_constructors
       (fst (replace_typedef_with_using (fst (replace_null_with_nullptr ls [])) [])) [])) [])"
proof -
  note defs = modernize_file_unfold Let_def replace_null_with_nullptr_def
      replace_typedef_with_using_def replace_zero_nullptr_def add_explicit_to_constructors_def
  show "fst (modernize_file ls) =
     fst (replace_zero_nullptr (fst (add_explicit_to_constructors
       (fst (replace_typedef_with_using (fst (replace_null_with_nullptr ls [])) [])) [])) [])"
    unfolding defs
    by (metis for_lines_log_fst explicit_loop_log)
  show "snd (modernize_file ls) =
     (let l1 = fst (replace_null_with_nullptr ls []);
          l2 = fst (replace_typedef_with_using l1 []);
          l3 = fst (add_explicit_to_constructors l2 [])
      in snd (replace_null_with_nullptr ls []) @ snd (replace_typedef_with_using l1 [])
         @ snd (add_explicit_to_constructors l2 []) @ snd (replace_zero_nullptr l3 []))"
    unfolding defs
    by (metis append.assoc for_lines_log_fst for_lines_log_snd explicit_loop_log)
qed

text \<open>
  C1 (as the code has it). For every input file the four rewrite passes run in the fixed
  order (1) whole-word NULL to nullptr, (2) typedef to using, (3) explicit-constructor
  insertion, (4) pointer-initialisation literal 0 to nullptr, each pass on the lines the
  pass before it returned, and the replacement log is the log of pass 1 followed by those of
  passes 2, 3 and 4: it is ordered by (pass order under this numbering, line number).
\<close>

theorem modernize_file_pass_order:
  "fst (modernize_file ls) =
     fst (replace_zero_nullptr (fst (add_explicit_to_constructors
       (fst (replace_typedef_with_using (fst (replace_null_with_nullptr ls [])) [])) [])) []) \<and>
   snd (modernize_file ls) =
     (let l1 = fst (replace_null_with_nullptr ls []);
          l2 = fst (replace_typedef_with_using l1 []);
          l3 = fst (add_explicit_to_constructors l2 [])
      in snd (replace_null_with_nullptr ls []) @ snd (replace_typedef_with_using l1 [])
         @ snd (add_explicit_to_constructors l2 []) @ snd (replace_zero_nullptr l3 [])) \<and>
   sorted (map log_key (snd (modernize_file ls)))"
proof -
  note a = from_line_log_key[OF from_line_for_lines[of NullToNullptr null_body, OF tagged_null_body]]
  note b = from_line_log_key[OF from_line_for_lines[of TypedefToUsing typedef_body, OF tagged_typedef_body]]
  note c = from_line_log_key[OF from_line_explicit_loop]
  note d = from_line_log_key[OF from_line_for_lines[of ZeroToNullptr zero_body, OF tagged_zero_body]]
  have le: "x \<le> y" if "fst x < fst y" for x y :: "nat \<times> nat"
    using that by (simp add: less_eq_prod_def)
  have "sorted (map log_key (snd (modernize_file ls)))"
    unfolding modernize_file_log Let_def replace_null_with_nullptr_def
      replace_typedef_with_using_def replace_zero_nullptr_def add_explicit_to_constructors_def
    by (auto simp: sorted_append a b c d pass_number_def intro!: le)
  with modernize_file_log[of ls] modernize_file_lines[of ls] show ?thesis
    by simp
qed

theorem modernize_file_pass_order_witness:
  "map log_key (snd (modernize_file ptr_lines)) = [(3, 2), (4, 3)] \<and>
   sorted (map log_key (snd (modernize_file ptr_lines)))"
proof -
  have "map log_key (snd (modernize_file ptr_lines)) = [(3, 2), (4, 3)]"
    by code_simp
  with modernize_file_pass_order[of ptr_lines] show ?thesis
    by blast
qed

text \<open>Under the numbering of the specification (pointer-initialisation 0 third, explicit
  fourth) the log is not ordered: the explicit entry of line 2 comes before the pointer
  entry of line 3.\<close>

theorem spec_pass_order_counterexample:
  "map spec_log_key (snd (modernize_file ptr_lines)) = [(4, 2), (3, 3)] \<and>
   \<not> sorted (map spec_log_key (snd (modernize_file ptr_lines)))"
proof -
  have "map spec_log_key (snd (modernize_file ptr_lines)) = [(4, 2), (3, 3)]"
    by code_simp
  then show ?thesis by (simp add: less_eq_prod_def)
qed

section \<open>Checks that read the whole line\<close>

text \<open>
  C2 (at an input where the code departs from it). Three lines whose code segment is empty,
  the whole text being a \<^verbatim>\<open>//\<close> comment, are reported by the index-loop, raw-pointer
  and C-array checks, which match against the line and not against its code segment.
\<close>

theorem comment_only_patterns_reported:
  "map code_part comment_lines = [[], [], []] \<and>
   map (\<lambda>v. (rule v, vline v)) (detect_lines ''a.cpp'' comment_lines)
     = [(''ES.71'', 2), (''I.11'', 3), (''SL.con.1'', 1)]"
  by code_simp

section \<open>The default access level of a type\<close>

text \<open>
  C6 (at an input where the code departs from it). A line that opens a type with the
  keyword \<^verbatim>\<open>class\<close> and contains the letters \<^verbatim>\<open>struct\<close> anywhere sets the access
  level to public, and the constructor declared in the private section that follows is
  rewritten.
\<close>

theorem class_line_containing_struct_is_public:
  "re_match rx_type_open ''class Constructor {\<newline>'' \<noteq> None \<and>
   track_open \<lparr>in_class = False, access_level = Private\<rparr> ''class Constructor {\<newline>''
     = \<lparr>in_class = True, access_level = Public\<rparr> \<and>
   fst (modernize_file ctor_lines)
     = [''class Constructor {\<newline>'', ''    explicit Constructor(int x) { }\<newline>'', ''};\<newline>'']"
  by code_simp

section \<open>Facts about the matcher\<close>

lemma orelse_None [simp]: "orelse a None = a"
  by (cases a) simp_all

lemma orelse_eq_None [simp]: "orelse a b = None \<longleftrightarrow> a = None \<and> b = None"
  by (cases a) simp_all

lemma push_eq_None [simp]: "push x m = None \<longleftrightarrow> m = None"
  by (induction x m rule: push.induct) simp_all

lemma push_took [simp]: "push x (took w m) = took (x # w) m"
  by (cases m) auto

lemma took_eq_None [simp]: "took w m = None \<longleftrightarrow> m = None"
  by (cases m) auto

lemma skip_eq_None [simp]: "skip m = None \<longleftrightarrow> m = None"
  by (cases m) auto

lemma skip_took: "skip m = took [] m"
  by (cases m) auto

lemma lastc_Cons: "lastc p (x # w) = lastc (Some x) w"
  by (simp add: lastc_def)

lemma lastc_Nil [simp]: "lastc p [] = p"
  by (simp add: lastc_def)

lemma startswith_append: "startswith s w \<longleftrightarrow> (\<exists>t. s = w @ t)"
  by (induction s w rule: startswith.induct) auto

lemma startswith_drop: "startswith s w \<Longrightarrow> w @ drop (length w) s = s"
  by (auto simp: startswith_append)

text \<open>A greedy quantifier never gives anything back when what follows cannot start with a
  character of its class.\<close>

lemma run_Star_greedy:
  assumes "\<And>x xs q. cls_match c x \<Longrightarrow> run rs q (x # xs) = None"
  shows "run (Rep Star c # rs) p s =
           took (takeWhile (cls_match c) s)
             (run rs (lastc p (takeWhile (cls_match c) s)) (dropWhile (cls_match c) s))"
proof (induction s arbitrary: p)
  case Nil
  show ?case by (simp add: skip_took)
next
  case (Cons x xs)
  show ?case
  proof (cases "cls_match c x")
    case True
    then show ?thesis
      by (simp add: Cons assms lastc_Cons)
  next
    case False
    then show ?thesis by (simp add: skip_took)
  qed
qed

lemma run_Plus_greedy:
  assumes "\<And>x xs q. cls_match c x \<Longrightarrow> run rs q (x # xs) = None"
  shows "run (Rep Plus c # rs) p s =
           (if s \<noteq> [] \<and> cls_match c (hd s)
            then took (takeWhile (cls_match c) s)
                   (run rs (lastc p (takeWhile (cls_match c) s)) (dropWhile (cls_match c) s))
            else None)"
proof (cases s)
  case Nil
  then show ?thesis by simp
next
  case (Cons x xs)
  then show ?thesis
    by (simp add: run_Star_greedy[OF assms] lastc_Cons)
qed

lemma run_Star_last: "run [Rep Star c] p s \<noteq> None"
  by (induction s arbitrary: p) (auto simp del: not_None_eq)

lemma run_Plus_last: "run [Rep Plus c] p s \<noteq> None \<longleftrightarrow> s \<noteq> [] \<and> cls_match c (hd s)"
proof (cases s)
  case Nil
  then show ?thesis by simp
next
  case (Cons x xs)
  then show ?thesis using run_Star_last[of c "Some x" xs] by (simp del: not_None_eq)
qed

subsection \<open>Character classes and the patterns used\<close>

lemma space_not_word: "is_space x \<Longrightarrow> \<not> is_word x"
  by (auto simp: is_space_def is_word_def is_digit_def is_upper_def is_lower_def is_latin1_word_def Let_def)

lemma word_not_space: "is_word x \<Longrightarrow> \<not> is_space x"
  using space_not_word by blast

lemma cls_match_Space [simp]: "cls_match Space = is_space"
  by (rule ext) simp

lemma cls_match_Word [simp]: "cls_match Word = is_word"
  by (rule ext) simp

lemma run_Str_first: "w \<noteq> [] \<Longrightarrow> x \<noteq> hd w \<Longrightarrow> run (Str w # rs) q (x # xs) = None"
  by (cases w) auto

lemma run_Alt_first:
  "\<forall>w\<in>set ws. w \<noteq> [] \<and> x \<noteq> hd w \<Longrightarrow> run (Alt ws # rs) q (x # xs) = None"
proof (induction ws)
  case Nil
  show ?case by simp
next
  case (Cons w ws)
  then have "\<not> startswith (x # xs) w" by (cases w) auto
  with Cons show ?case by simp
qed

lemma sp_then_word:
  "run (Rep Star Space # Rep Plus Word # rs) p s =
     took (takeWhile is_space s)
       (run (Rep Plus Word # rs) (lastc p (takeWhile is_space s)) (dropWhile is_space s))"
  using run_Star_greedy[of Space "Rep Plus Word # rs" p s] by (simp add: space_not_word)

lemma sp_then_str:
  assumes "w \<noteq> []" "\<not> is_space (hd w)"
  shows "run (Rep Star Space # Str w # rs) p s =
     took (takeWhile is_space s)
       (run (Str w # rs) (lastc p (takeWhile is_space s)) (dropWhile is_space s))"
proof -
  have "run (Str w # rs) q (x # xs) = None" if "cls_match Space x" for x xs q
    using that assms by (intro run_Str_first) auto
  from run_Star_greedy[of Space "Str w # rs" p s, OF this] show ?thesis by simp
qed

lemma sp_then_alt:
  assumes "\<forall>w\<in>set ws. w \<noteq> [] \<and> \<not> is_space (hd w)"
  shows "run (Rep Star Space # Alt ws # rs) p s =
     took (takeWhile is_space s)
       (run (Alt ws # rs) (lastc p (takeWhile is_space s)) (dropWhile is_space s))"
proof -
  have "run (Alt ws # rs) q (x # xs) = None" if "cls_match Space x" for x xs q
    using that assms by (intro run_Alt_first) auto
  from run_Star_greedy[of Space "Alt ws # rs" p s, OF this] show ?thesis by simp
qed

lemma sp_then_one:
  assumes "\<And>x. is_space x \<Longrightarrow> \<not> cls_match c x"
  shows "run (Rep Star Space # Rep One c # rs) p s =
     took (takeWhile is_space s)
       (run (Rep One c # rs) (lastc p (takeWhile is_space s)) (dropWhile is_space s))"
proof -
  have "run (Rep One c # rs) q (x # xs) = None" if "cls_match Space x" for x xs q
    using that assms by auto
  from run_Star_greedy[of Space "Rep One c # rs" p s, OF this] show ?thesis by simp
qed

lemma word_then_sp_str:
  assumes "w \<noteq> []" "\<not> is_space (hd w)" "\<not> is_word (hd w)"
  shows "run (Rep Plus Word # Rep Star Space # Str w # rs) p s =
     (if s \<noteq> [] \<and> is_word (hd s)
      then took (takeWhile is_word s)
             (run (Rep Star Space # Str w # rs) (lastc p (takeWhile is_word s)) (dropWhile is_word s))
      else None)"
proof -
  have "run (Rep Star Space # Str w # rs) q (x # xs) = None" if "cls_match Word x" for x xs q
  proof -
    from that have "\<not> is_space x" "x \<noteq> hd w" using assms(3) by (auto simp: word_not_space)
    then show ?thesis using run_Str_first[OF assms(1), of x rs q xs]
      by (simp del: run.simps(2))
  qed
  from run_Plus_greedy[of Word "Rep Star Space # Str w # rs" p s, OF this] show ?thesis by simp
qed

section \<open>The explicit-constructor pass\<close>

lemma not_space_paren: "\<not> is_space CHR ''(''" "\<not> is_word CHR ''(''"
  by (simp_all add: is_space_def is_word_def is_digit_def is_upper_def is_lower_def is_latin1_word_def)

lemma ctor_match_shape:
  assumes "re_match rx_ctor l = Some (cs, r)"
  shows "\<exists>cs'. cs = takeWhile is_space l # cs'" and "ctor_shape l"
proof -
  let ?s1 = "dropWhile is_space l"
  let ?tl = "[Rep Star Space, Rep Plus Word, Rep Star (NoneOf '',)''), Str '')'', Rep Star Space,
              Rep One (OneOf '':{;'')]"
  from assms have run1:
    "took (takeWhile is_space l)
       (run (Rep Plus Word # Rep Star Space # Str ''('' # ?tl) (lastc None (takeWhile is_space l)) ?s1)
     = Some (cs, r)"
    by (simp add: re_match_def rx_ctor_def sp_then_word)
  then show "\<exists>cs'. cs = takeWhile is_space l # cs'"
    by (cases "run (Rep Plus Word # Rep Star Space # Str ''('' # ?tl) (lastc None (takeWhile is_space l)) ?s1") auto
  from run1 have nn: "run (Rep Plus Word # Rep Star Space # Str ''('' # ?tl) (lastc None (takeWhile is_space l)) ?s1 \<noteq> None"
    by (metis took.simps(1) option.distinct(1))
  then have w: "?s1 \<noteq> [] \<and> is_word (hd ?s1)"
    by (simp add: word_then_sp_str not_space_paren del: not_None_eq split: if_splits)
  with nn have "run (Str ''('' # ?tl) (lastc (lastc (lastc None (takeWhile is_space l)) (takeWhile is_word ?s1)) (takeWhile is_space (dropWhile is_word ?s1)))
       (dropWhile is_space (dropWhile is_word ?s1)) \<noteq> None"
    by (simp add: word_then_sp_str sp_then_str not_space_paren del: not_None_eq run.simps)
  then have "startswith (dropWhile is_space (dropWhile is_word ?s1)) ''(''"
    by (simp del: not_None_eq split: if_splits)
  with w show "ctor_shape l" by (simp add: ctor_shape_def)
qed

lemma replace1_prefix: "replace1 xs new (xs @ ys) = new @ ys"
proof (cases "xs @ ys")
  case Nil
  then show ?thesis by simp
next
  case (Cons a list)
  have "startswith (xs @ ys) xs" by (simp add: startswith_append)
  with Cons have "startswith (a # list) xs" by simp
  then have "replace1 xs new (a # list) = new @ drop (length xs) (a # list)" by simp
  then show ?thesis by (simp flip: Cons)
qed

lemma explicit_rewrite_cases:
  "explicit_rewrite st i l =
     (if in_class st \<and> access_level st = Public \<and> re_match rx_ctor l \<noteq> None
         \<and> \<not> contains ''explicit'' l \<and> \<not> contains ''delete'' l
      then (takeWhile is_space l @ ''explicit '' @ dropWhile is_space l,
            [Replacement i l (takeWhile is_space l @ ''explicit '' @ dropWhile is_space l) AddExplicit])
      else (l, []))"
proof (cases "re_match rx_ctor l")
  case None
  then show ?thesis by (simp add: explicit_rewrite_def)
next
  case (Some a)
  obtain cs r where a: "a = (cs, r)" by (cases a)
  from ctor_match_shape(1)[OF Some[unfolded a]] obtain cs' where cs: "cs = takeWhile is_space l # cs'" by blast
  have "replace1 (takeWhile is_space l) (takeWhile is_space l @ ''explicit '') l
          = (takeWhile is_space l @ ''explicit '') @ dropWhile is_space l"
    using replace1_prefix[of "takeWhile is_space l" _ "dropWhile is_space l"] by simp
  then show ?thesis
    using Some a cs by (simp add: explicit_rewrite_def Let_def)
qed

lemma explicit_loop_nth_scope:
  "k < length ls \<Longrightarrow>
   fst (explicit_loop st i ls log) ! k = fst (explicit_rewrite (scope_from st ls k) (i + k) (ls ! k))"
proof (induction ls arbitrary: st i log k)
  case Nil
  then show ?case by simp
next
  case (Cons l ls)
  show ?case
  proof (cases k)
    case 0
    then show ?thesis
      by (simp add: explicit_loop_Cons_fst scope_from_def del: explicit_loop.simps(2))
  next
    case (Suc k')
    with Cons.prems have "k' < length ls" by simp
    from Cons.IH[OF this, of "track_line st l" "Suc i"] Suc
    show ?thesis
      by (simp add: explicit_loop_Cons_fst scope_from_def track_line_def del: explicit_loop.simps(2))
  qed
qed

text \<open>A line of the constructor shape is no opener, no label and no end of a type.\<close>

lemma word_chars: "is_word c \<Longrightarrow> c \<noteq> CHR ''}'' \<and> c \<noteq> CHR '':'' \<and> c \<noteq> CHR ''(''"
  by (auto simp: is_word_def is_digit_def is_upper_def is_lower_def is_latin1_word_def)

lemma ctor_shape_not_end:
  assumes "ctor_shape l"
  shows "re_match rx_type_end l = None"
proof -
  from assms obtain c t where s1: "dropWhile is_space l = c # t" and c: "is_word c"
    by (cases "dropWhile is_space l") (auto simp: ctor_shape_def Let_def)
  have sp: "\<not> is_space CHR ''}''" by (simp add: is_space_def)
  from word_chars[OF c] show ?thesis
    by (simp add: re_match_def rx_type_end_def sp_then_str sp s1)
qed

lemma ctor_shape_after_word:
  assumes "ctor_shape l" and "dropWhile is_space l = kw @ t" and "\<forall>c\<in>set kw. is_word c"
  shows "startswith (dropWhile is_space (dropWhile is_word t)) ''(''"
proof -
  have "dropWhile is_word (kw @ t) = dropWhile is_word t"
    using assms(3) by (simp add: dropWhile_append)
  with assms(1,2) show ?thesis by (simp add: ctor_shape_def Let_def)
qed

lemma ctor_shape_not_label:
  assumes "ctor_shape l" and "kw \<noteq> []" and "\<forall>c\<in>set kw. is_word c"
  shows "re_match (rx_label kw) l = None"
proof (rule ccontr)
  assume m: "re_match (rx_label kw) l \<noteq> None"
  have nsp: "\<not> is_space (hd kw)" using assms(2,3) by (cases kw) (auto simp: word_not_space)
  have colon: "\<not> is_space (hd '':'')" by (simp add: is_space_def)
  let ?s1 = "dropWhile is_space l"
  from m have sw: "startswith ?s1 kw"
    by (simp add: re_match_def rx_label_def sp_then_str[OF assms(2) nsp] del: not_None_eq split: if_splits)
  then obtain t where t: "?s1 = kw @ t" by (auto simp: startswith_append)
  from m sw t have col: "startswith (dropWhile is_space t) '':''"
    by (simp add: re_match_def rx_label_def sp_then_str[OF assms(2) nsp] sp_then_str[OF _ colon]
        del: not_None_eq split: if_splits)
  from ctor_shape_after_word[OF assms(1) t assms(3)]
  have par: "startswith (dropWhile is_space (dropWhile is_word t)) ''(''" .
  show False
  proof (cases t)
    case Nil
    with col show False by simp
  next
    case (Cons c t')
    show False
    proof (cases "is_word c")
      case True
      with Cons col word_chars[of c] show False by (simp add: word_not_space)
    next
      case False
      with Cons par col show False by (cases "dropWhile is_space (c # t')") auto
    qed
  qed
qed

lemma ctor_shape_not_open:
  assumes "ctor_shape l"
  shows "re_match rx_type_open l = None"
proof (rule ccontr)
  assume m: "re_match rx_type_open l \<noteq> None"
  let ?s1 = "dropWhile is_space l"
  have nsp: "\<forall>w\<in>set [''class'', ''struct'']. w \<noteq> [] \<and> \<not> is_space (hd w)"
    by (simp add: is_space_def)
  have tail: "run [Rep Plus Space, Rep Plus Word] q t \<noteq> None \<longleftrightarrow>
      t \<noteq> [] \<and> is_space (hd t) \<and> dropWhile is_space t \<noteq> [] \<and> is_word (hd (dropWhile is_space t))" for q t
  proof -
    have "run [Rep Plus Word] q' (x # xs) = None" if "cls_match Space x" for x xs q'
      using that by (simp add: space_not_word)
    from run_Plus_greedy[of Space "[Rep Plus Word]" q t, OF this] show ?thesis
      using run_Plus_last[of Word] by (simp del: not_None_eq run.simps)
  qed
  from m have "(startswith ?s1 ''class'' \<and>
        run [Rep Plus Space, Rep Plus Word] (lastc (lastc None (takeWhile is_space l)) ''class'')
          (drop (length ''class'') ?s1) \<noteq> None)
      \<or> (startswith ?s1 ''struct'' \<and>
        run [Rep Plus Space, Rep Plus Word] (lastc (lastc None (takeWhile is_space l)) ''struct'')
          (drop (length ''struct'') ?s1) \<noteq> None)"
    by (simp add: re_match_def rx_type_open_def sp_then_alt[OF nsp]
        del: not_None_eq run.simps(12-) split: if_splits)
  then obtain kw where kw: "kw = ''class'' \<or> kw = ''struct''" and sw: "startswith ?s1 kw"
      and rest: "run [Rep Plus Space, Rep Plus Word] (lastc (lastc None (takeWhile is_space l)) kw)
                   (drop (length kw) ?s1) \<noteq> None"
    by blast
  define t where "t = drop (length kw) ?s1"
  from sw have t: "?s1 = kw @ t" by (simp add: t_def startswith_drop)
  note rest = rest[folded t_def]
  from kw have w: "\<forall>c\<in>set kw. is_word c"
    by (auto simp: is_word_def is_lower_def is_latin1_word_def)
  from ctor_shape_after_word[OF assms t w]
  have par: "startswith (dropWhile is_space (dropWhile is_word t)) ''(''" .
  from rest[unfolded tail] obtain c t' where "t = c # t'" "is_space c"
      "dropWhile is_space t \<noteq> []" "is_word (hd (dropWhile is_space t))"
    by (cases t) auto
  with par word_chars[of "hd (dropWhile is_space t)"] show False
    by (cases "dropWhile is_space (c # t')") (auto simp: space_not_word)
qed

lemma ctor_line_keeps_scope:
  assumes "re_match rx_ctor l \<noteq> None"
  shows "track_open st l = st" "track_label st l = st" "track_end st l = st"
proof -
  from assms obtain cs r where "re_match rx_ctor l = Some (cs, r)" by auto
  then have sh: "ctor_shape l" by (rule ctor_match_shape(2))
  have w: "\<forall>c\<in>set ''public''. is_word c" "\<forall>c\<in>set ''private''. is_word c" "\<forall>c\<in>set ''protected''. is_word c"
    by (auto simp: is_word_def is_lower_def is_latin1_word_def)
  show "track_open st l = st" by (simp add: track_open_def ctor_shape_not_open[OF sh])
  show "track_label st l = st"
    using w by (simp add: track_label_def ctor_shape_not_label[OF sh])
  show "track_end st l = st" by (simp add: track_end_def ctor_shape_not_end[OF sh])
qed

text \<open>A rewritten line is not rewritten again, and leaves the scope as it is.\<close>

lemma contains_append: "contains w ys \<Longrightarrow> contains w (xs @ ys)"
  by (induction xs) auto

lemma contains_prefix: "contains w (w @ ys)"
proof (cases "w @ ys")
  case Nil
  then show ?thesis by simp
next
  case (Cons a list)
  have "startswith (w @ ys) w" by (simp add: startswith_append)
  then show ?thesis by (simp add: Cons)
qed

lemma with_explicit_neq: "with_explicit l \<noteq> l"
proof
  assume "with_explicit l = l"
  then have "length (with_explicit l) = length l" by simp
  moreover have "length l = length (takeWhile is_space l) + length (dropWhile is_space l)"
    by (metis length_append takeWhile_dropWhile_id)
  ultimately show False by (simp add: with_explicit_def)
qed

lemma dropWhile_with_explicit:
  "dropWhile is_space (with_explicit l) = ''explicit '' @ dropWhile is_space l"
proof -
  have e: "\<not> is_space CHR ''e''" by (simp add: is_space_def)
  have "dropWhile is_space (takeWhile is_space l @ (''explicit '' @ dropWhile is_space l))
          = dropWhile is_space (''explicit '' @ dropWhile is_space l)"
    by (rule dropWhile_append2) (auto dest: set_takeWhileD)
  also have "\<dots> = ''explicit '' @ dropWhile is_space l"
    using e by simp
  finally show ?thesis by (simp only: with_explicit_def)
qed

lemma with_explicit_no_match:
  "re_match rx_type_open (with_explicit l) = None"
  "re_match (rx_label ''public'') (with_explicit l) = None"
  "re_match (rx_label ''private'') (with_explicit l) = None"
  "re_match (rx_label ''protected'') (with_explicit l) = None"
  "re_match rx_type_end (with_explicit l) = None"
proof -
  have nsp: "\<forall>w\<in>set [''class'', ''struct'']. w \<noteq> [] \<and> \<not> is_space (hd w)"
    by (simp add: is_space_def)
  have sp: "\<not> is_space CHR ''}''" "\<not> is_space CHR ''p''" by (simp_all add: is_space_def)
  show "re_match rx_type_open (with_explicit l) = None"
    by (simp add: re_match_def rx_type_open_def sp_then_alt[OF nsp] dropWhile_with_explicit)
  show "re_match (rx_label ''public'') (with_explicit l) = None"
    by (simp add: re_match_def rx_label_def sp_then_str sp dropWhile_with_explicit)
  show "re_match (rx_label ''private'') (with_explicit l) = None"
    by (simp add: re_match_def rx_label_def sp_then_str sp dropWhile_with_explicit)
  show "re_match (rx_label ''protected'') (with_explicit l) = None"
    by (simp add: re_match_def rx_label_def sp_then_str sp dropWhile_with_explicit)
  show "re_match rx_type_end (with_explicit l) = None"
    by (simp add: re_match_def rx_type_end_def sp_then_str sp dropWhile_with_explicit)
qed

lemma with_explicit_keeps_scope:
  "track_open st (with_explicit l) = st" "track_label st (with_explicit l) = st"
  "track_end st (with_explicit l) = st"
  by (simp_all add: track_open_def track_label_def track_end_def with_explicit_no_match)

lemma with_explicit_not_rewritten: "explicit_rewrite st i (with_explicit l) = (with_explicit l, [])"
proof -
  have "contains ''explicit'' (with_explicit l)"
    unfolding with_explicit_def
    using contains_append[OF contains_prefix[of "''explicit''" "'' '' @ dropWhile is_space l"]]
    by simp
  then show ?thesis by (simp add: explicit_rewrite_cases)
qed

lemma explicit_rewrite_eq:
  "explicit_rewrite st i l =
     (if fires st l then (with_explicit l, [Replacement i l (with_explicit l) AddExplicit])
      else (l, []))"
  by (simp add: explicit_rewrite_cases fires_def with_explicit_def)

lemma explicit_loop_Cons:
  "explicit_loop st i (l # ls) log =
     (fst (explicit_rewrite (track_label (track_open st l) l) i l)
        # fst (explicit_loop (track_end (track_label (track_open st l) l) l) (Suc i) ls
            (log @ snd (explicit_rewrite (track_label (track_open st l) l) i l))),
      snd (explicit_loop (track_end (track_label (track_open st l) l) l) (Suc i) ls
            (log @ snd (explicit_rewrite (track_label (track_open st l) l) i l))))"
  by (rule prod_eqI) (simp_all only: explicit_loop_Cons_fst explicit_loop_Cons_snd fst_conv snd_conv)

lemma explicit_loop_idem:
  "explicit_loop st i (fst (explicit_loop st i ls log)) log' = (fst (explicit_loop st i ls log), log')"
proof (induction ls arbitrary: st i log log')
  case Nil
  show ?case by simp
next
  case (Cons l ls)
  let ?st1 = "track_label (track_open st l) l"
  let ?st2 = "track_end ?st1 l"
  let ?n = "fst (explicit_rewrite ?st1 i l)"
  let ?es = "snd (explicit_rewrite ?st1 i l)"
  let ?rest = "fst (explicit_loop ?st2 (Suc i) ls (log @ ?es))"
  have first: "fst (explicit_loop st i (l # ls) log) = ?n # ?rest"
    by (rule explicit_loop_Cons_fst)
  have step: "track_label (track_open st ?n) ?n = ?st1 \<and> explicit_rewrite ?st1 i ?n = (?n, [])
      \<and> track_end ?st1 ?n = ?st2"
  proof (cases "fires ?st1 l")
    case True
    then have m: "re_match rx_ctor l \<noteq> None" by (simp add: fires_def)
    have st1: "?st1 = st" "track_end st l = st"
      by (simp_all add: ctor_line_keeps_scope[OF m])
    from True have n: "fst (explicit_rewrite st i l) = with_explicit l"
      by (simp add: explicit_rewrite_eq st1)
    show ?thesis
      unfolding st1 n
      by (simp only: with_explicit_keeps_scope with_explicit_not_rewritten simp_thms)
  next
    case False
    then have "explicit_rewrite ?st1 i l = (l, [])" by (simp add: explicit_rewrite_eq)
    then show ?thesis by simp
  qed
  have "explicit_loop st i (?n # ?rest) log' =
          (?n # fst (explicit_loop ?st2 (Suc i) ?rest log'), snd (explicit_loop ?st2 (Suc i) ?rest log'))"
    by (subst explicit_loop_Cons) (simp only: step fst_conv snd_conv append_Nil2)
  also have "\<dots> = (?n # ?rest, log')"
    by (simp only: Cons.IH fst_conv snd_conv)
  finally show ?case by (simp only: first)
qed

text \<open>
  C7. The explicit-constructor pass rewrites line \<open>k\<close> exactly when the tracked scope is
  inside a type with access level public, the line matches the single-parameter constructor
  pattern, and it contains neither \<^verbatim>\<open>explicit\<close> nor \<^verbatim>\<open>delete\<close>; so it never rewrites a
  line while the access level is private or protected or while the scope is outside a type.
  A rewrite inserts \<^verbatim>\<open>explicit \<close> between the leading whitespace, which is kept, and the
  constructor name that follows it. (For a rewritten line the tracking of the line itself
  changes nothing: the scope it is tested under is the scope the lines before it left.)
\<close>

theorem explicit_only_in_public_section:
  "k < length ls \<Longrightarrow>
   (let st = scope_at ls k; l = ls ! k; out = fst (add_explicit_to_constructors ls log) ! k in
      (out \<noteq> l \<longleftrightarrow>
         in_class st \<and> access_level st = Public \<and> re_match rx_ctor l \<noteq> None
         \<and> \<not> contains ''explicit'' l \<and> \<not> contains ''delete'' l) \<and>
      (out \<noteq> l \<longrightarrow>
         out = takeWhile is_space l @ ''explicit '' @ dropWhile is_space l \<and>
         dropWhile is_space l \<noteq> [] \<and> is_word (hd (dropWhile is_space l)) \<and>
         st = foldl track_line \<lparr>in_class = False, access_level = Private\<rparr> (take k ls)) \<and>
      (\<not> in_class st \<or> access_level st = Private \<or> access_level st = Protected \<longrightarrow> out = l))"
proof -
  assume k: "k < length ls"
  let ?st = "scope_at ls k" and ?l = "ls ! k"
  have out: "fst (add_explicit_to_constructors ls log) ! k = fst (explicit_rewrite ?st (Suc k) ?l)"
    using explicit_loop_nth_scope[OF k, of _ 1 log]
    by (simp add: add_explicit_to_constructors_def scope_at_def)
  have shape: "dropWhile is_space ?l \<noteq> [] \<and> is_word (hd (dropWhile is_space ?l))
      \<and> ?st = foldl track_line \<lparr>in_class = False, access_level = Private\<rparr> (take k ls)"
    if "fires ?st ?l"
  proof -
    from that have m: "re_match rx_ctor ?l \<noteq> None" by (simp add: fires_def)
    then obtain cs r where "re_match rx_ctor ?l = Some (cs, r)" by auto
    from ctor_match_shape(2)[OF this] ctor_line_keeps_scope(1,2)[OF m] show ?thesis
      by (simp add: ctor_shape_def Let_def scope_at_def scope_from_def)
  qed
  show ?thesis
    unfolding Let_def out explicit_rewrite_eq
    using shape with_explicit_neq[of ?l]
    by (auto simp: fires_def with_explicit_def)
qed

theorem explicit_only_in_public_section_witness:
  "(2::nat) < length foo_lines \<and>
   fst (add_explicit_to_constructors foo_lines []) ! 2 = ''    explicit Foo(int x) { }\<newline>'' \<and>
   fst (add_explicit_to_constructors foo_lines []) ! 2 \<noteq> foo_lines ! 2 \<and>
   in_class (scope_at foo_lines 2) \<and> access_level (scope_at foo_lines 2) = Public \<and>
   re_match rx_ctor (foo_lines ! 2) \<noteq> None"
proof -
  have k: "(2::nat) < length foo_lines" by (simp add: foo_lines_def)
  have out: "fst (add_explicit_to_constructors foo_lines []) ! 2 = ''    explicit Foo(int x) { }\<newline>''"
    by code_simp
  have ne: "fst (add_explicit_to_constructors foo_lines []) ! 2 \<noteq> foo_lines ! 2"
    unfolding out by (simp add: foo_lines_def)
  from explicit_only_in_public_section[OF k, of "[]"] ne
  have "in_class (scope_at foo_lines 2) \<and> access_level (scope_at foo_lines 2) = Public \<and>
        re_match rx_ctor (foo_lines ! 2) \<noteq> None"
    unfolding Let_def by blast
  with k out ne show ?thesis by blast
qed

section \<open>The pointer-zero pass\<close>

lemma not_space_chars: "\<not> is_space CHR ''0''" "\<not> is_space CHR '';''" "\<not> is_space CHR ''=''"
    "\<not> is_space CHR ''n''" "is_space CHR '' ''"
  by (simp_all add: is_space_def)

lemma run_eq_zero: "map_option snd (run rx_eq_zero p s) = zero_at s"
proof -
  have a: "''0'' \<noteq> []" "\<not> is_space (hd ''0'')" "'';'' \<noteq> []" "\<not> is_space (hd '';'')"
    by (simp_all add: not_space_chars)
  show ?thesis
    by (cases s)
      (auto simp: rx_eq_zero_def zero_at_def zero_tail_def sp_then_str[OF a(1,2)] sp_then_str[OF a(3,4)]
        option.map_comp comp_def
        simp del: dropWhile_eq_Nil_conv
        split: list.splits option.splits)
qed

lemma run_eq_zero_None: "run rx_eq_zero p s = None \<longleftrightarrow> zero_at s = None"
  using run_eq_zero[of p s, symmetric] by (cases "run rx_eq_zero p s") auto

lemma run_eq_zero_Some: "run rx_eq_zero p s = Some (cs, r) \<Longrightarrow> zero_at s = Some r"
  using run_eq_zero[of p s] by auto

lemma zero_tail_shorter: "zero_tail t = Some r \<Longrightarrow> length r < length t"
proof -
  assume a: "zero_tail t = Some r"
  then obtain u where u: "dropWhile is_space t = CHR ''0'' # u"
    and r: "dropWhile is_space u = CHR '';'' # r"
    by (auto simp: zero_tail_def split: list.splits if_splits)
  have "length (dropWhile is_space t) \<le> length t" "length (dropWhile is_space u) \<le> length u"
    by (rule length_dropWhile_le)+
  with u r show ?thesis by simp
qed

lemma zero_at_shorter: "zero_at s = Some r \<Longrightarrow> length r < length s"
  by (auto simp: zero_at_def split: list.splits if_splits dest: zero_tail_shorter)

lemma sub_eq_zero_Cons:
  "sub_from rx_eq_zero repl p (c # t) =
     (case zero_at (c # t) of
        None \<Rightarrow> c # sub_from rx_eq_zero repl (Some c) t
      | Some r \<Rightarrow> repl @ sub_from rx_eq_zero repl
                       (lastc p (take (length (c # t) - length r) (c # t))) r)"
proof (cases "run rx_eq_zero p (c # t)")
  case None
  then show ?thesis by (simp add: run_eq_zero_None[THEN iffD1])
next
  case (Some a)
  obtain cs r where a: "a = (cs, r)" by (cases a)
  from Some a have z: "zero_at (c # t) = Some r" by (simp add: run_eq_zero_Some)
  from zero_at_shorter[OF z] Some a z show ?thesis by simp
qed

lemma sub_eq_zero_prev:
  "sub_from rx_eq_zero repl p s = sub_from rx_eq_zero repl q s"
proof (induction "length s" arbitrary: s p q rule: less_induct)
  case less
  show ?case
  proof (cases s)
    case Nil
    then show ?thesis by simp
  next
    case (Cons c t)
    show ?thesis
    proof (cases "zero_at (c # t)")
      case None
      with less[of t "Some c" "Some c"] Cons show ?thesis
        by (simp only: sub_eq_zero_Cons option.case)
    next
      case (Some r)
      from zero_at_shorter[OF Some] Cons have "length r < length s" by simp
      from less[OF this] Some Cons show ?thesis
        by (simp only: sub_eq_zero_Cons option.case) metis
    qed
  qed
qed

lemma zsub_Nil [simp]: "zsub [] = []"
  by (simp add: zsub_def re_sub_def)

lemma zsub_Cons:
  "zsub (c # t) = (case zero_at (c # t) of None \<Rightarrow> c # zsub t | Some r \<Rightarrow> ''= nullptr;'' @ zsub r)"
proof (cases "zero_at (c # t)")
  case None
  have "sub_from rx_eq_zero ''= nullptr;'' None (c # t)
          = c # sub_from rx_eq_zero ''= nullptr;'' (Some c) t"
    by (subst sub_eq_zero_Cons) (simp only: None option.case)
  also have "\<dots> = c # sub_from rx_eq_zero ''= nullptr;'' None t"
    by (simp only: sub_eq_zero_prev[of _ "Some c" t None])
  finally show ?thesis by (simp only: zsub_def re_sub_def None option.case)
next
  case (Some r)
  let ?p = "lastc None (take (length (c # t) - length r) (c # t))"
  have "sub_from rx_eq_zero ''= nullptr;'' None (c # t)
          = ''= nullptr;'' @ sub_from rx_eq_zero ''= nullptr;'' ?p r"
    by (subst sub_eq_zero_Cons) (simp only: Some option.case)
  also have "\<dots> = ''= nullptr;'' @ sub_from rx_eq_zero ''= nullptr;'' None r"
    by (simp only: sub_eq_zero_prev[of _ ?p r None])
  finally show ?thesis by (simp only: zsub_def re_sub_def Some option.case)
qed

lemma search_eq_zero: "search_from rx_eq_zero p s = has_zero s"
  by (induction s arbitrary: p) (simp_all add: run_eq_zero_None zero_at_def del: not_None_eq)

lemma zero_at_not_eq: "c \<noteq> CHR ''='' \<Longrightarrow> zero_at (c # t) = None"
  by (simp add: zero_at_def)

lemma zsub_not_eq: "c \<noteq> CHR ''='' \<Longrightarrow> zsub (c # t) = c # zsub t"
  by (simp add: zsub_Cons zero_at_not_eq)

lemma zsub_hd:
  assumes "zsub s = c # u'" and "c \<noteq> CHR ''=''"
  shows "\<exists>u. s = c # u \<and> u' = zsub u"
proof (cases s)
  case Nil
  with assms show ?thesis by simp
next
  case (Cons d t)
  with assms show ?thesis
    by (auto simp: zsub_Cons split: option.splits)
qed

lemma zsub_eq_Nil: "zsub s = [] \<longleftrightarrow> s = []"
  by (cases s) (auto simp: zsub_Cons split: option.splits)

lemma zsub_spaces: "dropWhile is_space (zsub t) = zsub (dropWhile is_space t)"
proof (induction t)
  case Nil
  show ?case by simp
next
  case (Cons c t)
  show ?case
  proof (cases "is_space c")
    case True
    then have "c \<noteq> CHR ''=''" using not_space_chars by auto
    with True Cons show ?thesis by (simp add: zsub_not_eq)
  next
    case False
    then show ?thesis
      by (auto simp: zsub_Cons not_space_chars split: option.splits)
  qed
qed

lemma zero_tail_zsub: "zero_tail (zsub t) \<noteq> None \<Longrightarrow> zero_tail t \<noteq> None"
proof -
  assume "zero_tail (zsub t) \<noteq> None"
  then obtain u' r' where u': "dropWhile is_space (zsub t) = CHR ''0'' # u'"
    and r': "dropWhile is_space u' = CHR '';'' # r'"
    by (auto simp: zero_tail_def split: list.splits if_splits)
  from u' have "zsub (dropWhile is_space t) = CHR ''0'' # u'" by (simp add: zsub_spaces)
  from zsub_hd[OF this] obtain u where u: "dropWhile is_space t = CHR ''0'' # u" "u' = zsub u"
    by auto
  from r' u have "zsub (dropWhile is_space u) = CHR '';'' # r'" by (simp add: zsub_spaces)
  from zsub_hd[OF this] obtain r where "dropWhile is_space u = CHR '';'' # r" by auto
  with u show ?thesis by (simp add: zero_tail_def)
qed

lemma has_zero_repl: "has_zero (''= nullptr;'' @ s) = has_zero s"
  by (simp add: zero_at_def zero_tail_def not_space_chars)

lemma no_zero_zsub: "\<not> has_zero (zsub s)"
proof (induction "length s" arbitrary: s rule: less_induct)
  case less
  show ?case
  proof (cases s)
    case Nil
    then show ?thesis by simp
  next
    case (Cons c t)
    show ?thesis
    proof (cases "zero_at (c # t)")
      case None
      have "zero_at (c # zsub t) = None"
      proof (rule ccontr)
        assume "zero_at (c # zsub t) \<noteq> None"
        then have "c = CHR ''=''" "zero_tail (zsub t) \<noteq> None"
          by (auto simp: zero_at_def split: if_splits)
        with zero_tail_zsub[of t] None show False by (simp add: zero_at_def)
      qed
      with less[of t] None Cons show ?thesis by (simp add: zsub_Cons)
    next
      case (Some r)
      from zero_at_shorter[OF Some] Cons have "length r < length s" by simp
      have "zsub s = ''= nullptr;'' @ zsub r" by (simp add: zsub_Cons Cons Some)
      with less[OF \<open>length r < length s\<close>] show ?thesis
        by (simp only: has_zero_repl simp_thms)
    qed
  qed
qed

lemma zsub_id: "\<not> has_zero t \<Longrightarrow> zsub t = t"
  by (induction t) (auto simp: zsub_Cons)

lemma zsub_idem: "zsub (zsub s) = zsub s"
  by (rule zsub_id) (rule no_zero_zsub)

lemma zsub_changes: "has_zero s \<Longrightarrow> zsub s \<noteq> s"
proof (induction s)
  case Nil
  then show ?case by simp
next
  case (Cons c t)
  show ?case
  proof (cases "zero_at (c # t)")
    case None
    with Cons show ?thesis by (simp add: zsub_Cons)
  next
    case (Some r)
    show ?thesis
    proof
      assume "zsub (c # t) = c # t"
      with Some have "c # t = ''= nullptr;'' @ zsub r" by (simp add: zsub_Cons)
      then have "zero_at (c # t) = None"
        by (simp add: zero_at_def zero_tail_def not_space_chars)
      with Some show False by simp
    qed
  qed
qed

lemma has_zero_append: "has_zero b \<Longrightarrow> has_zero (a @ b)"
  by (induction a) auto

lemma has_zero_at: "zero_at b \<noteq> None \<Longrightarrow> has_zero b"
  by (cases b) (auto simp: zero_at_def)

lemma has_zero_dropWhile: "has_zero (dropWhile P s) \<Longrightarrow> has_zero s"
  using has_zero_append[of "dropWhile P s" "takeWhile P s"] by simp

lemma has_zero_drop: "has_zero (drop n s) \<Longrightarrow> has_zero s"
  using has_zero_append[of "drop n s" "take n s"] by simp

lemma run_ptr_zero: "run rx_ptr_zero p s \<noteq> None \<Longrightarrow> has_zero s"
proof -
  assume m: "run rx_ptr_zero p s \<noteq> None"
  have eq: "''='' \<noteq> []" "\<not> is_space (hd ''='')" "\<not> is_word (hd ''='')"
    by (simp_all add: is_space_def is_word_def is_digit_def is_upper_def is_lower_def is_latin1_word_def)
  let ?t = "[Rep Star Space, Str ''0'', Rep Star Space, Str '';'']"
  let ?s1 = "drop (length ''*'') s"
  let ?s2 = "dropWhile is_space ?s1"
  let ?s3 = "dropWhile is_word ?s2"
  let ?s4 = "dropWhile is_space ?s3"
  have sw: "startswith s ''*''"
  proof (rule ccontr)
    assume "\<not> startswith s ''*''"
    then have "run rx_ptr_zero p s = None" by (simp add: rx_ptr_zero_def)
    with m show False by simp
  qed
  have "run rx_ptr_zero p s =
          took ''*'' (run (Rep Star Space # Rep Plus Word # Rep Star Space # Str ''='' # ?t)
                        (lastc p ''*'') ?s1)"
    using sw by (simp only: rx_ptr_zero_def run.simps(2) if_True)
  with m have m1: "run (Rep Star Space # Rep Plus Word # Rep Star Space # Str ''='' # ?t)
                        (lastc p ''*'') ?s1 \<noteq> None"
    by (simp only: took_eq_None simp_thms)
  note m2 = m1[unfolded sp_then_word took_eq_None]
  have m3: "\<exists>q. run (Rep Star Space # Str ''='' # ?t) q ?s3 \<noteq> None"
    using m2 unfolding word_then_sp_str[OF eq]
    by (metis took_eq_None)
  then obtain q where "run (Rep Star Space # Str ''='' # ?t) q ?s3 \<noteq> None" by blast
  note m4 = this[unfolded sp_then_str[OF eq(1,2)] took_eq_None]
  then have "run rx_eq_zero (lastc q (takeWhile is_space ?s3)) ?s4 \<noteq> None"
    by (simp only: rx_eq_zero_def simp_thms)
  then have "zero_at ?s4 \<noteq> None" by (simp only: run_eq_zero_None not_False_eq_True)
  then have "has_zero ?s4" by (rule has_zero_at)
  then have "has_zero ?s3" by (rule has_zero_dropWhile)
  then have "has_zero ?s2" by (rule has_zero_dropWhile)
  then have "has_zero ?s1" by (rule has_zero_dropWhile)
  then show ?thesis by (rule has_zero_drop)
qed

lemma search_ptr_zero: "search_from rx_ptr_zero p s \<Longrightarrow> has_zero s"
proof (induction s arbitrary: p)
  case Nil
  then show ?case using run_ptr_zero[of p "[]"] by (simp del: not_None_eq)
next
  case (Cons c t)
  then show ?case using run_ptr_zero[of p "c # t"] by (auto simp del: not_None_eq)
qed

lemma zero_body_eq:
  "zero_body i l =
     (if re_search rx_ptr_zero l then (zsub l, [Replacement i l (zsub l) ZeroToNullptr])
      else (l, []))"
proof (cases "re_search rx_ptr_zero l")
  case True
  then have "has_zero l" by (simp add: re_search_def search_ptr_zero)
  then have "zsub l \<noteq> l" by (rule zsub_changes)
  with True show ?thesis by (auto simp: zero_body_def Let_def zsub_def)
next
  case False
  then show ?thesis by (simp add: zero_body_def)
qed

lemma zero_body_idem: "zero_body j (fst (zero_body i l)) = (fst (zero_body i l), [])"
proof (cases "re_search rx_ptr_zero l")
  case True
  have "\<not> re_search rx_ptr_zero (zsub l)"
    using search_ptr_zero[of None "zsub l"] no_zero_zsub[of l] by (auto simp: re_search_def)
  with True show ?thesis by (simp add: zero_body_eq)
next
  case False
  then show ?thesis by (simp add: zero_body_eq)
qed

lemma for_lines_idem:
  assumes "\<And>i l. body i (fst (body i l)) = (fst (body i l), [])"
  shows "for_lines body i (fst (for_lines body i ls log)) log' = (fst (for_lines body i ls log), log')"
proof (induction ls arbitrary: i log log')
  case Nil
  show ?case by simp
next
  case (Cons l ls)
  show ?case
    by (simp add: for_lines_Cons_fst assms Cons del: for_lines.simps(2))
       (simp add: assms Cons)
qed

lemma for_lines_entries:
  assumes "\<And>j l. tagged why j (snd (body j l))" and "k < length ls"
  shows "filter (\<lambda>r. line_num r = i + k) (snd (for_lines body i ls [])) = snd (body (i + k) (ls ! k))"
  using assms(2)
proof (induction ls arbitrary: i k)
  case Nil
  then show ?case by simp
next
  case (Cons l ls)
  have later: "filter (\<lambda>r. line_num r = i) (snd (for_lines body (Suc i) ls [])) = []"
    using from_line_for_lines[of why body "Suc i" ls, OF assms(1)]
    by (auto simp: from_line_def filter_empty_conv)
  have unf: "snd (for_lines body i (l # ls) []) = snd (body i l) @ snd (for_lines body (Suc i) ls [])"
    using for_lines_log_snd[of body "Suc i" ls "snd (body i l)"]
    by (simp add: for_lines_Cons_snd del: for_lines.simps(2))
  show ?case
  proof (cases k)
    case 0
    have "filter (\<lambda>r. line_num r = i) (snd (body i l)) = snd (body i l)"
      using assms(1)[of i l] by (auto simp: tagged_def filter_id_conv)
    with 0 later show ?thesis by (simp add: unf del: for_lines.simps(2))
  next
    case (Suc k')
    with Cons.prems have k': "k' < length ls" by simp
    have "filter (\<lambda>r. line_num r = i + k) (snd (body i l)) = []"
      using assms(1)[of i l] Suc by (auto simp: tagged_def filter_empty_conv)
    with Cons.IH[OF k', of "Suc i"] Suc show ?thesis
      by (simp add: unf del: for_lines.simps(2))
  qed
qed

lemma zero_pass_idem:
  "replace_zero_nullptr (fst (replace_zero_nullptr ls log)) log' = (fst (replace_zero_nullptr ls log), log')"
  unfolding replace_zero_nullptr_def
  by (rule for_lines_idem) (rule zero_body_idem)

text \<open>
  C10. When line \<open>k\<close> matches the pointer-assignment pattern \<^verbatim>\<open>\*\s*\w+\s*=\s*0\s*;\<close>, the
  pass replaces the line by the result of substituting \<^verbatim>\<open>= nullptr;\<close> for every
  occurrence of \<^verbatim>\<open>=\s*0\s*;\<close> on it, not only for the pointer assignment that triggered
  the match: no occurrence of that shape is left in the new line. Exactly one Replacement is
  logged for the line.
\<close>

theorem pointer_zero_rewrites_every_occurrence:
  "k < length ls \<Longrightarrow> re_search rx_ptr_zero (ls ! k) \<Longrightarrow>
   (let l = ls ! k; new = re_sub rx_eq_zero ''= nullptr;'' l in
      fst (replace_zero_nullptr ls log) ! k = new \<and>
      \<not> re_search rx_eq_zero new \<and>
      filter (\<lambda>r. line_num r = Suc k) (snd (replace_zero_nullptr ls []))
        = [Replacement (Suc k) l new ZeroToNullptr])"
proof -
  assume k: "k < length ls" and m: "re_search rx_ptr_zero (ls ! k)"
  have a: "fst (replace_zero_nullptr ls log) ! k = zsub (ls ! k)"
    using for_lines_nth[OF k, of zero_body 1 log] m
    by (simp add: replace_zero_nullptr_def zero_body_eq)
  have b: "\<not> re_search rx_eq_zero (zsub (ls ! k))"
    by (simp add: re_search_def search_eq_zero no_zero_zsub)
  have c: "filter (\<lambda>r. line_num r = Suc k) (snd (replace_zero_nullptr ls []))
        = [Replacement (Suc k) (ls ! k) (zsub (ls ! k)) ZeroToNullptr]"
    using for_lines_entries[of ZeroToNullptr zero_body k ls 1, OF tagged_zero_body k] m
    by (simp add: replace_zero_nullptr_def zero_body_eq)
  from a b c show ?thesis by (simp add: Let_def zsub_def)
qed

theorem pointer_zero_rewrites_every_occurrence_witness:
  "(0::nat) < length zero_lines \<and> re_search rx_ptr_zero (zero_lines ! 0) \<and>
   fst (replace_zero_nullptr zero_lines []) ! 0 = ''  *p = nullptr; n = nullptr;\<newline>'' \<and>
   \<not> re_search rx_eq_zero ''  *p = nullptr; n = nullptr;\<newline>'' \<and>
   filter (\<lambda>r. line_num r = Suc 0) (snd (replace_zero_nullptr zero_lines []))
     = [Replacement (Suc 0) ''  *p = 0; n = 0;\<newline>'' ''  *p = nullptr; n = nullptr;\<newline>''
          ZeroToNullptr]"
proof -
  have k: "(0::nat) < length zero_lines" by (simp add: zero_lines_def)
  have m: "re_search rx_ptr_zero (zero_lines ! 0)" by code_simp
  have l: "zero_lines ! 0 = ''  *p = 0; n = 0;\<newline>''" by (simp add: zero_lines_def)
  have new: "re_sub rx_eq_zero ''= nullptr;'' ''  *p = 0; n = 0;\<newline>''
               = ''  *p = nullptr; n = nullptr;\<newline>''"
    by code_simp
  from pointer_zero_rewrites_every_occurrence[OF k m, of "[]"] k m show ?thesis
    unfolding Let_def l new by blast
qed

section \<open>The NULL pass\<close>

lemma word_NUL: "is_word CHR ''N''" "is_word CHR ''U''" "is_word CHR ''L''" "is_word CHR ''r''"
  by (simp_all add: is_word_def is_upper_def is_lower_def)

lemma run_NULL:
  "run rx_NULL p s =
     (if null_at (word_opt p) s then Some ([[], ''NULL'', []], drop 4 s) else None)"
proof (cases "startswith s ''NULL''")
  case True
  then obtain t where s: "s = ''NULL'' @ t" by (auto simp: startswith_append)
  show ?thesis
    unfolding s
    by (cases t) (simp_all add: rx_NULL_def null_at_def boundary_def lastc_def word_opt_def word_NUL)
next
  case False
  then show ?thesis by (simp add: rx_NULL_def null_at_def)
qed

lemma word_opt_Some: "word_opt (Some c) = is_word c"
  by (simp add: word_opt_def)

lemma null_at_Nil: "\<not> null_at w []"
  by (simp add: null_at_def)

lemma search_NULL: "search_from rx_NULL p s = has_null (word_opt p) s"
  by (induction s arbitrary: p) (simp_all add: run_NULL word_opt_Some null_at_Nil)

lemma nsub_Nil [simp]: "nsub p [] = []"
  by (simp add: nsub_def)

lemma nsub_Cons:
  "nsub p (c # t) =
     (if null_at (word_opt p) (c # t) then ''nullptr'' @ nsub (Some CHR ''L'') (drop 4 (c # t))
      else c # nsub (Some c) t)"
proof (cases "null_at (word_opt p) (c # t)")
  case True
  then obtain u where u: "c # t = ''NULL'' @ u" by (auto simp: null_at_def startswith_append)
  then have t: "t = ''ULL'' @ u" and c: "c = CHR ''N''" by simp_all
  from True show ?thesis
    unfolding nsub_def t c by (simp add: run_NULL lastc_def)
next
  case False
  then show ?thesis by (simp add: nsub_def run_NULL)
qed

lemma nsub_after_word: "word_opt p \<Longrightarrow> nsub p (c # t) = c # nsub (Some c) t"
  by (simp add: nsub_Cons null_at_def)

lemma nsub_prev: "word_opt p = word_opt q \<Longrightarrow> nsub p s = nsub q s"
  by (cases s) (simp_all add: nsub_Cons)

lemma null_at_nsub:
  assumes "null_at w (c # nsub (Some c) t)"
  shows "null_at w (c # t)"
proof -
  from assms have c: "c = CHR ''N''" and w: "\<not> w" by (auto simp: null_at_def)
  have step: "nsub (Some d) s = (case s of [] \<Rightarrow> [] | e # s' \<Rightarrow> e # nsub (Some e) s')" if "is_word d" for d s
    using that by (cases s) (simp_all add: nsub_after_word word_opt_def)
  from assms obtain Y where Y: "nsub (Some CHR ''N'') t = ''ULL'' @ Y"
    and nw: "\<not> (case Y of [] \<Rightarrow> False | x # _ \<Rightarrow> is_word x)"
    unfolding c null_at_def by (auto simp: startswith_append)
  from Y obtain t1 where t1: "t = CHR ''U'' # t1" "nsub (Some CHR ''U'') t1 = ''LL'' @ Y"
    by (cases t) (auto simp: step[OF word_NUL(1)])
  from t1(2) obtain t2 where t2: "t1 = CHR ''L'' # t2" "nsub (Some CHR ''L'') t2 = ''L'' @ Y"
    by (cases t1) (auto simp: step[OF word_NUL(2)])
  from t2(2) obtain t3 where t3: "t2 = CHR ''L'' # t3" "nsub (Some CHR ''L'') t3 = Y"
    by (cases t2) (auto simp: step[OF word_NUL(3)])
  from t3(2) nw have "\<not> (case t3 of [] \<Rightarrow> False | x # _ \<Rightarrow> is_word x)"
    by (cases t3) (auto simp: step[OF word_NUL(3)])
  with w show ?thesis by (simp add: null_at_def c t1 t2 t3)
qed

lemma has_null_repl: "has_null w (''nullptr'' @ s) = has_null True s"
  by (simp add: null_at_def word_NUL)

lemma no_null_nsub: "\<not> has_null (word_opt p) (nsub p s)"
proof (induction "length s" arbitrary: s p rule: less_induct)
  case less
  show ?case
  proof (cases s)
    case Nil
    then show ?thesis by simp
  next
    case (Cons c t)
    show ?thesis
    proof (cases "null_at (word_opt p) (c # t)")
      case True
      then have "length (drop 4 (c # t)) < length s" using Cons by simp
      from less[OF this, of "Some CHR ''L''"]
      have "\<not> has_null True (nsub (Some CHR ''L'') (drop 4 (c # t)))"
        by (simp add: word_opt_def word_NUL)
      moreover have "nsub p s = ''nullptr'' @ nsub (Some CHR ''L'') (drop 4 (c # t))"
        using True Cons by (simp only: nsub_Cons if_True)
      ultimately show ?thesis by (simp only: has_null_repl simp_thms)
    next
      case False
      have ns: "nsub p s = c # nsub (Some c) t" using False Cons by (simp only: nsub_Cons if_False)
      have "\<not> null_at (word_opt p) (c # nsub (Some c) t)"
        using null_at_nsub[of "word_opt p" c t] False by blast
      moreover have "\<not> has_null (is_word c) (nsub (Some c) t)"
        using less[of t "Some c"] Cons by (simp add: word_opt_def)
      ultimately show ?thesis by (simp add: ns)
    qed
  qed
qed

lemma nsub_id: "\<not> has_null (word_opt p) t \<Longrightarrow> nsub p t = t"
proof (induction t arbitrary: p)
  case Nil
  show ?case by simp
next
  case (Cons c t)
  from Cons.prems have "\<not> null_at (word_opt p) (c # t)" "\<not> has_null (word_opt (Some c)) t"
    by (simp_all add: word_opt_def)
  with Cons.IH[of "Some c"] show ?case by (simp add: nsub_Cons)
qed

lemma nsub_idem: "nsub p (nsub p s) = nsub p s"
  by (rule nsub_id) (rule no_null_nsub)

lemma nsub_changes: "has_null (word_opt p) s \<Longrightarrow> nsub p s \<noteq> s"
proof (induction s arbitrary: p)
  case Nil
  then show ?case by simp
next
  case (Cons c t)
  show ?case
  proof (cases "null_at (word_opt p) (c # t)")
    case True
    then have "c = CHR ''N''" by (simp add: null_at_def)
    with True show ?thesis by (simp add: nsub_Cons)
  next
    case False
    with Cons.prems have "has_null (word_opt (Some c)) t" by (simp add: word_opt_def)
    from Cons.IH[OF this] False show ?thesis by (simp add: nsub_Cons)
  qed
qed

section \<open>Running a pass on its own output\<close>

lemma null_body_eq:
  "null_body i l =
     (if \<not> contains ''//'' l \<and> \<not> contains ''/*'' l \<and> re_search rx_NULL l
      then (nsub None l, [Replacement i l (nsub None l) NullToNullptr])
      else (l, []))"
proof (cases "re_search rx_NULL l")
  case True
  then have "has_null (word_opt None) l" by (simp add: re_search_def search_NULL)
  then have "nsub None l \<noteq> l" by (rule nsub_changes)
  with True show ?thesis by (auto simp: null_body_def Let_def nsub_def re_sub_def)
next
  case False
  then show ?thesis by (simp add: null_body_def)
qed

lemma no_search_nsub: "\<not> re_search rx_NULL (nsub None l)"
  using no_null_nsub[of None l] by (simp add: re_search_def search_NULL)

lemma null_body_idem: "null_body j (fst (null_body i l)) = (fst (null_body i l), [])"
  by (simp add: null_body_eq no_search_nsub)

lemma typedef_match_indent:
  assumes "re_match rx_typedef l = Some (cs, r)"
  shows "\<exists>cs'. cs = takeWhile is_space l # cs'"
proof -
  have t: "''typedef'' \<noteq> []" "\<not> is_space (hd ''typedef'')" by (simp_all add: is_space_def)
  from assms show ?thesis
    unfolding re_match_def rx_typedef_def sp_then_str[OF t]
    by (cases "run (Str ''typedef'' # [Rep Plus Space, Rep PlusLazy Dot, Rep Plus Space, Rep Plus Word,
          Rep Star Space, Str '';'']) (lastc None (takeWhile is_space l)) (dropWhile is_space l)")
       auto
qed

lemma typedef_using_unchanged:
  "typedef_body j (takeWhile is_space l @ ''using '' @ x) = (takeWhile is_space l @ ''using '' @ x, [])"
proof -
  have t: "''typedef'' \<noteq> []" "\<not> is_space (hd ''typedef'')" by (simp_all add: is_space_def)
  have u: "\<not> is_space CHR ''u''" by (simp add: is_space_def)
  have "dropWhile is_space (takeWhile is_space l @ (''using '' @ x)) = dropWhile is_space (''using '' @ x)"
    by (rule dropWhile_append2) (auto dest: set_takeWhileD)
  with u have d: "dropWhile is_space (takeWhile is_space l @ ''using '' @ x) = ''using '' @ x"
    by simp
  have "re_match rx_typedef (takeWhile is_space l @ ''using '' @ x) = None"
    unfolding re_match_def rx_typedef_def sp_then_str[OF t] d by simp
  then show ?thesis by (simp add: typedef_body_def)
qed

lemma typedef_body_idem: "typedef_body j (fst (typedef_body i l)) = (fst (typedef_body i l), [])"
proof (cases "re_match rx_typedef l")
  case None
  then show ?thesis by (simp add: typedef_body_def)
next
  case (Some a)
  obtain cs r where a: "a = (cs, r)" by (cases a)
  from typedef_match_indent[OF Some[unfolded a]] obtain cs' where cs: "cs = takeWhile is_space l # cs'"
    by blast
  have same: "typedef_body j l = (l, [])" if "typedef_body i l = (l, [])" for l
    using that by (auto simp: typedef_body_def Let_def split: option.splits list.splits prod.splits)
  show ?thesis
  proof (cases "typedef_body i l = (l, [])")
    case True
    with same show ?thesis by simp
  next
    case False
    then obtain x where "fst (typedef_body i l) = takeWhile is_space l @ ''using '' @ x"
      using Some a cs
      by (auto simp: typedef_body_def Let_def split: option.splits list.splits prod.splits)
    then show ?thesis by (simp only: typedef_using_unchanged)
  qed
qed

text \<open>
  C4 (as the code has it). Each of the four rewrite passes, run a second time on its own
  output, leaves every line unchanged and logs no Replacement: the matching predicate of
  each pass excludes the shape of its own output.
\<close>

theorem each_pass_idempotent:
  "replace_null_with_nullptr (fst (replace_null_with_nullptr ls log)) log'
     = (fst (replace_null_with_nullptr ls log), log') \<and>
   replace_typedef_with_using (fst (replace_typedef_with_using ls log)) log'
     = (fst (replace_typedef_with_using ls log), log') \<and>
   add_explicit_to_constructors (fst (add_explicit_to_constructors ls log)) log'
     = (fst (add_explicit_to_constructors ls log), log') \<and>
   replace_zero_nullptr (fst (replace_zero_nullptr ls log)) log'
     = (fst (replace_zero_nullptr ls log), log')"
  unfolding replace_null_with_nullptr_def replace_typedef_with_using_def
    add_explicit_to_constructors_def replace_zero_nullptr_def
  by (intro conjI for_lines_idem null_body_idem typedef_body_idem zero_body_idem explicit_loop_idem)

theorem each_pass_idempotent_witness:
  "fst (add_explicit_to_constructors ptr_lines []) \<noteq> ptr_lines \<and>
   add_explicit_to_constructors (fst (add_explicit_to_constructors ptr_lines [])) []
     = (fst (add_explicit_to_constructors ptr_lines []), []) \<and>
   fst (replace_zero_nullptr ptr_lines []) \<noteq> ptr_lines \<and>
   replace_zero_nullptr (fst (replace_zero_nullptr ptr_lines [])) []
     = (fst (replace_zero_nullptr ptr_lines []), [])"
proof -
  have a: "fst (add_explicit_to_constructors ptr_lines []) \<noteq> ptr_lines"
    by code_simp
  have b: "fst (replace_zero_nullptr ptr_lines []) \<noteq> ptr_lines"
    by code_simp
  from each_pass_idempotent[of ptr_lines "[]" "[]"] a b show ?thesis
    by blast
qed

text \<open>The four passes in sequence are not idempotent: the typedef pass drops the comment
  that kept the NULL pass off the line, so the second run of the pipeline rewrites the NULL
  that the first run left. Nor do they need a comment for it: the pointer-zero pass, the
  last one, can produce a line that the typedef pass of the second run matches.\<close>

theorem pipeline_twice_counterexample:
  "fst (modernize_file idem_lines) = [''using null_t = decltype(NULL);\<newline>''] \<and>
   fst (modernize_file (fst (modernize_file idem_lines)))
     = [''using null_t = decltype(nullptr);\<newline>''] \<and>
   map (\<lambda>r. (line_num r, reason r)) (snd (modernize_file (fst (modernize_file idem_lines))))
     = [(1, NullToNullptr)] \<and>
   fst (modernize_file idem_lines2) = [''typedef *p= nullptr;\<newline>''] \<and>
   map (\<lambda>r. (line_num r, reason r)) (snd (modernize_file (fst (modernize_file idem_lines2))))
     = [(1, TypedefToUsing)]"
  by code_simp

section \<open>NULL: one violation per line, and its rewrite\<close>

lemma for_each_from:
  assumes "\<And>j l rest. \<forall>v\<in>set (body j l rest). vline v = j"
  shows "\<forall>v\<in>set (for_each body i ls). i \<le> vline v"
proof (induction ls arbitrary: i)
  case Nil
  show ?case by simp
next
  case (Cons l ls)
  from Cons[of "Suc i"] assms[of i l ls] show ?case by fastforce
qed

lemma for_each_line:
  assumes "\<And>j l rest. \<forall>v\<in>set (body j l rest). vline v = j" and "k < length ls"
  shows "filter (\<lambda>v. vline v = i + k) (for_each body i ls) = body (i + k) (ls ! k) (drop (Suc k) ls)"
  using assms(2)
proof (induction ls arbitrary: i k)
  case Nil
  then show ?case by simp
next
  case (Cons l ls)
  show ?case
  proof (cases k)
    case 0
    have "filter (\<lambda>v. vline v = i) (for_each body (Suc i) ls) = []"
      using for_each_from[of body "Suc i" ls, OF assms(1)] by (auto simp: filter_empty_conv)
    moreover have "filter (\<lambda>v. vline v = i) (body i l ls) = body i l ls"
      using assms(1)[of i l ls] by (auto simp: filter_id_conv)
    ultimately show ?thesis using 0 by simp
  next
    case (Suc k')
    with Cons.prems have k': "k' < length ls" by simp
    have "filter (\<lambda>v. vline v = i + k) (body i l ls) = []"
      using assms(1)[of i l ls] Suc by (auto simp: filter_empty_conv)
    with Cons.IH[OF k', of "Suc i"] Suc show ?thesis by simp
  qed
qed

lemma raw_new_delete_vline: "\<forall>v\<in>set (raw_new_delete_body f j l rest). vline v = j"
  by (cases rest) (auto simp: raw_new_delete_body_def Violation_def)

lemma null_usage_vline: "\<forall>v\<in>set (null_usage_body f j l rest). vline v = j"
  by (cases rest) (auto simp: null_usage_body_def Violation_def)

lemma c_style_cast_vline: "\<forall>v\<in>set (c_style_cast_body f j l rest). vline v = j"
  by (cases rest) (auto simp: c_style_cast_body_def Violation_def)

lemma typedef_check_vline: "\<forall>v\<in>set (typedef_check_body f j l rest). vline v = j"
  by (cases rest) (auto simp: typedef_check_body_def Violation_def)

lemma missing_const_body_cases:
  "missing_const_body f j l rest = [] \<or>
   missing_const_body f j l rest = [Violation f j 0 IMPORTANT ''Con.2'' MaybeConstMember (strip l)]"
proof (cases "re_search rx_member_fn l")
  case False
  then show ?thesis by (simp only: missing_const_body_def if_False simp_thms)
next
  case True
  show ?thesis
  proof (cases rest)
    case Nil
    with True show ?thesis
      by (simp only: missing_const_body_def if_True list.case simp_thms)
  next
    case (Cons a list)
    with True have "missing_const_body f j l rest =
       (if contains ''return'' a \<and> \<not> contains ''const'' l
        then [Violation f j 0 IMPORTANT ''Con.2'' MaybeConstMember (strip l)] else [])"
      by (simp only: missing_const_body_def if_True list.case)
    then show ?thesis by simp
  qed
qed

lemma missing_const_vline: "\<forall>v\<in>set (missing_const_body f j l rest). vline v = j"
  using missing_const_body_cases[of f j l rest] by (auto simp: Violation_def)

lemma manual_loops_vline: "\<forall>v\<in>set (manual_loops_body f j l rest). vline v = j"
  by (cases rest) (auto simp: manual_loops_body_def Violation_def)

lemma raw_pointers_vline: "\<forall>v\<in>set (raw_pointers_body f j l rest). vline v = j"
  by (cases rest) (auto simp: raw_pointers_body_def Violation_def)

lemma c_arrays_vline: "\<forall>v\<in>set (c_arrays_body f j l rest). vline v = j"
  by (cases rest) (auto simp: c_arrays_body_def Violation_def)

lemmas body_vline =
  raw_new_delete_vline null_usage_vline c_style_cast_vline typedef_check_vline
  missing_const_vline manual_loops_vline raw_pointers_vline c_arrays_vline

lemma raw_new_delete_no_NULL: "filter (\<lambda>v. message v = UseOfNULL) (raw_new_delete_body f j l rest) = []"
  by (cases rest) (auto simp: raw_new_delete_body_def Violation_def)

lemma c_style_cast_no_NULL: "filter (\<lambda>v. message v = UseOfNULL) (c_style_cast_body f j l rest) = []"
  by (cases rest) (auto simp: c_style_cast_body_def Violation_def)

lemma typedef_check_no_NULL: "filter (\<lambda>v. message v = UseOfNULL) (typedef_check_body f j l rest) = []"
  by (cases rest) (auto simp: typedef_check_body_def Violation_def)

lemma missing_const_no_NULL: "filter (\<lambda>v. message v = UseOfNULL) (missing_const_body f j l rest) = []"
  using missing_const_body_cases[of f j l rest] by (auto simp: Violation_def)

lemma manual_loops_no_NULL: "filter (\<lambda>v. message v = UseOfNULL) (manual_loops_body f j l rest) = []"
  by (cases rest) (auto simp: manual_loops_body_def Violation_def)

lemma raw_pointers_no_NULL: "filter (\<lambda>v. message v = UseOfNULL) (raw_pointers_body f j l rest) = []"
  by (cases rest) (auto simp: raw_pointers_body_def Violation_def)

lemma c_arrays_no_NULL: "filter (\<lambda>v. message v = UseOfNULL) (c_arrays_body f j l rest) = []"
  by (cases rest) (auto simp: c_arrays_body_def Violation_def)

lemmas body_no_NULL =
  raw_new_delete_no_NULL c_style_cast_no_NULL typedef_check_no_NULL missing_const_no_NULL
  manual_loops_no_NULL raw_pointers_no_NULL c_arrays_no_NULL

lemma null_usage_NULL:
  "filter (\<lambda>v. message v = UseOfNULL) (null_usage_body f j l rest) =
     (if re_search rx_NULL (code_part l)
      then [Violation f j (find l ''NULL'') IMPORTANT ''ES.47'' UseOfNULL (strip l)] else [])"
  by (simp add: null_usage_body_def Violation_def)

lemma detect_lines_NULL:
  assumes "k < length ls"
  shows "filter (\<lambda>v. vline v = Suc k \<and> message v = UseOfNULL) (detect_lines f ls) =
     (if re_search rx_NULL (code_part (ls ! k))
      then [Violation f (Suc k) (find (ls ! k) ''NULL'') IMPORTANT ''ES.47'' UseOfNULL (strip (ls ! k))]
      else [])"
proof -
  have two: "filter (\<lambda>v. vline v = Suc k \<and> message v = UseOfNULL) xs
      = filter (\<lambda>v. message v = UseOfNULL) (filter (\<lambda>v. vline v = 1 + k) xs)" for xs
    by (simp add: conj_commute)
  note line = for_each_line[OF _ assms, of _ 1]
  show ?thesis
    unfolding detect_lines_def detect_raw_new_delete_def detect_null_usage_def
      detect_c_style_cast_def detect_typedef_def detect_missing_const_def
      detect_manual_loops_def detect_raw_pointers_def detect_c_arrays_def filter_append two
      line[OF body_vline(1)] line[OF body_vline(2)] line[OF body_vline(3)] line[OF body_vline(4)]
      line[OF body_vline(5)] line[OF body_vline(6)] line[OF body_vline(7)] line[OF body_vline(8)]
    by (simp add: body_no_NULL null_usage_NULL)
qed

lemma code_part_no_comment: "\<not> contains ''//'' l \<Longrightarrow> code_part l = l"
  by (simp add: code_part_def)

text \<open>
  C3 (as the code has it). For every line whose code segment (the text before the first
  \<^verbatim>\<open>//\<close>) contains the whole word NULL, the Detection Engine emits exactly one violation
  of the NULL rule for that line, of severity Important and rule id ES.47. When the line
  contains neither \<^verbatim>\<open>//\<close> nor \<^verbatim>\<open>/*\<close>, the NULL pass replaces it by the line with every
  whole-word NULL rewritten to nullptr, in which no whole-word NULL is left, and logs
  exactly one Replacement for it; a line that contains \<^verbatim>\<open>//\<close> or \<^verbatim>\<open>/*\<close> anywhere is left
  as it is by the pass, and nothing is logged for it.
\<close>

theorem null_detected_once_and_rewritten_outside_comment_lines:
  "k < length ls \<Longrightarrow> re_search rx_NULL (code_part (ls ! k)) \<Longrightarrow>
   (let l = ls ! k; new = re_sub rx_NULL ''nullptr'' l in
      filter (\<lambda>v. vline v = Suc k \<and> message v = UseOfNULL) (detect_lines f ls)
        = [Violation f (Suc k) (find l ''NULL'') IMPORTANT ''ES.47'' UseOfNULL (strip l)] \<and>
      (\<not> contains ''//'' l \<and> \<not> contains ''/*'' l \<longrightarrow>
         fst (replace_null_with_nullptr ls log) ! k = new \<and>
         \<not> re_search rx_NULL new \<and>
         filter (\<lambda>r. line_num r = Suc k) (snd (replace_null_with_nullptr ls []))
           = [Replacement (Suc k) l new NullToNullptr]) \<and>
      (contains ''//'' l \<or> contains ''/*'' l \<longrightarrow>
         fst (replace_null_with_nullptr ls log) ! k = l \<and>
         filter (\<lambda>r. line_num r = Suc k) (snd (replace_null_with_nullptr ls [])) = []))"
proof -
  assume k: "k < length ls" and m: "re_search rx_NULL (code_part (ls ! k))"
  let ?l = "ls ! k"
  have out: "fst (replace_null_with_nullptr ls log) ! k = fst (null_body (Suc k) ?l)"
    using for_lines_nth[OF k, of null_body 1 log] by (simp add: replace_null_with_nullptr_def)
  have ent: "filter (\<lambda>r. line_num r = Suc k) (snd (replace_null_with_nullptr ls []))
        = snd (null_body (Suc k) ?l)"
    using for_lines_entries[of NullToNullptr null_body k ls 1, OF tagged_null_body k]
    by (simp add: replace_null_with_nullptr_def)
  have m': "re_search rx_NULL ?l" if "\<not> contains ''//'' ?l"
    using m that by (simp add: code_part_no_comment)
  show ?thesis
    unfolding Let_def out ent detect_lines_NULL[OF k]
    using m m' no_search_nsub[of ?l]
    by (auto simp: null_body_eq nsub_def re_sub_def)
qed

theorem null_detected_once_and_rewritten_outside_comment_lines_witness:
  "(0::nat) < length null_lines \<and> re_search rx_NULL (code_part (null_lines ! 0)) \<and>
   \<not> contains ''//'' (null_lines ! 0) \<and> \<not> contains ''/*'' (null_lines ! 0) \<and>
   length (filter (\<lambda>v. vline v = Suc 0 \<and> message v = UseOfNULL) (detect_lines ''a.cpp'' null_lines)) = 1 \<and>
   fst (replace_null_with_nullptr null_lines []) ! 0 = ''p = nullptr;\<newline>'' \<and>
   length (filter (\<lambda>r. line_num r = Suc 0) (snd (replace_null_with_nullptr null_lines []))) = 1"
proof -
  have k: "(0::nat) < length null_lines" by (simp add: null_lines_def)
  have m: "re_search rx_NULL (code_part (null_lines ! 0))" by code_simp
  have c: "\<not> contains ''//'' (null_lines ! 0)" "\<not> contains ''/*'' (null_lines ! 0)"
    by code_simp+
  have new: "re_sub rx_NULL ''nullptr'' (null_lines ! 0) = ''p = nullptr;\<newline>''"
    by code_simp
  from null_detected_once_and_rewritten_outside_comment_lines[OF k m, of "''a.cpp''" "[]"] c
  have "filter (\<lambda>v. vline v = Suc 0 \<and> message v = UseOfNULL) (detect_lines ''a.cpp'' null_lines)
          = [Violation ''a.cpp'' (Suc 0) (find (null_lines ! 0) ''NULL'') IMPORTANT ''ES.47'' UseOfNULL
               (strip (null_lines ! 0))]"
    and "fst (replace_null_with_nullptr null_lines []) ! 0 = ''p = nullptr;\<newline>''"
    and "filter (\<lambda>r. line_num r = Suc 0) (snd (replace_null_with_nullptr null_lines []))
          = [Replacement (Suc 0) (null_lines ! 0) ''p = nullptr;\<newline>'' NullToNullptr]"
    unfolding Let_def new by blast+
  with k m c show ?thesis by simp
qed

text \<open>A line whose code segment contains NULL but which carries a comment is detected and
  not rewritten: the claim without the condition on \<^verbatim>\<open>//\<close> and \<^verbatim>\<open>/*\<close> fails.\<close>

theorem null_in_comment_line_counterexample:
  "re_search rx_NULL (code_part (null_comment_lines ! 0)) \<and>
   fst (replace_null_with_nullptr null_comment_lines []) = null_comment_lines \<and>
   length (snd (replace_null_with_nullptr null_comment_lines [])) = 0"
  by code_simp

end
